theory Spec2Isabelle
  imports Complex_Main
begin

text \<open>
  A model of the flow-control code of the TCP exercises: the \<^verbatim>\<open>BackpressureMonitor\<close> and
  the \<^verbatim>\<open>DataGenerator\<close> of exercise 3 and the \<^verbatim>\<open>ConnectionPool\<close> of exercise 1. Each
  method is a function on the fields of its object; what the runtime contributes (the
  state of a socket, the clock, the result of a transport call, the order in which
  callbacks run) is an argument or an event. The definitions come first, the properties
  after them.
\<close>

section \<open>Sockets as the monitor and the pool read them\<close>

text \<open>
  The code never looks inside the transport: it reads a handful of properties of a
  \<^verbatim>\<open>net.Socket\<close> each time it is called. A value of \<open>sock\<close> is one such reading.
  Byte counts are natural numbers; every other JavaScript number (percentages, rates,
  timestamps) is an exact real, so rounding of doubles is not part of the model.
  \<open>handle\<close> is \<^verbatim>\<open>socket._handle\<close>: \<open>None\<close> when there is none, \<open>Some d\<close> when there is
  one whose \<^verbatim>\<open>destroyed\<close> flag is \<open>d\<close>.
\<close>

record sock =
  writableLength :: nat
  writableHighWaterMark :: nat
  destroyed :: bool
  pending :: bool
  readyState :: string
  handle :: "bool option"

text \<open>\<^verbatim>\<open>x || d\<close> on a byte count: \<open>0\<close> is falsy, so the default is taken.\<close>

definition or_default :: "nat \<Rightarrow> nat \<Rightarrow> nat" where
  "or_default x d = (if x = 0 then d else x)"

section \<open>BackpressureMonitor (exercise-3-solution.js)\<close>

record stats =
  writeAttempts :: nat
  backpressureEvents :: nat
  maxBufferSize :: nat
  drainEvents :: nat
  totalBytesWritten :: nat
  totalBytesRead :: nat
  writeFailures :: nat
  avgWriteTime :: real

text \<open>One entry of \<^verbatim>\<open>bufferHistory\<close>: the object literal built by \<^verbatim>\<open>recordBufferState\<close>.\<close>

record sample =
  timestamp :: real
  st_writableLength :: nat
  st_writableHighWaterMark :: nat
  bufferUtilization :: real
  backpressureActive :: bool
  st_pending :: bool
  st_readyState :: string

text \<open>
  \<^verbatim>\<open>socket.write\<close> is a slot of the socket object: it holds the transport's own method
  until \<^verbatim>\<open>startMonitoring\<close> stores the monitor's wrapper there.
\<close>

datatype write_fn = NativeWrite | MonitorWrite

record monitor =
  stats :: stats
  bufferHistory :: "sample list"
  isMonitoring :: bool
  monitoringInterval :: "nat option"
  originalWrite :: "write_fn option"
  dashboardInterval :: "nat option"
  writeTimings :: "real list"

text \<open>The constructor.\<close>

definition new_monitor :: monitor where
  "new_monitor =
     \<lparr> stats = \<lparr> writeAttempts = 0, backpressureEvents = 0, maxBufferSize = 0,
                 drainEvents = 0, totalBytesWritten = 0, totalBytesRead = 0,
                 writeFailures = 0, avgWriteTime = 0 \<rparr>,
       bufferHistory = [], isMonitoring = False, monitoringInterval = None,
       originalWrite = None, dashboardInterval = None, writeTimings = [] \<rparr>"

text \<open>
  \<^verbatim>\<open>isBackpressureActive\<close> and \<^verbatim>\<open>getBufferUtilization\<close>. The monitor is always built
  over a socket object, so \<^verbatim>\<open>!this.socket\<close> is false and only \<^verbatim>\<open>socket.destroyed\<close>
  decides the early return.
\<close>

definition isBackpressureActive :: "sock \<Rightarrow> bool" where
  "isBackpressureActive s =
     (if destroyed s then False
      else
        let wl = or_default (writableLength s) 0;
            highWaterMark = or_default (writableHighWaterMark s) 16384
        in real highWaterMark * 0.8 \<le> real wl)"

definition getBufferUtilization :: "sock \<Rightarrow> real" where
  "getBufferUtilization s =
     (if destroyed s then 0
      else
        let wl = or_default (writableLength s) 0;
            highWaterMark = or_default (writableHighWaterMark s) 16384
        in (real wl / real highWaterMark) * 100)"

text \<open>
  The sample \<^verbatim>\<open>recordBufferState\<close> builds from the socket at time \<open>now\<close>
  (\<^verbatim>\<open>performance.now()\<close>). The utilization is computed here without the
  \<^verbatim>\<open>destroyed\<close> test; the flag comes from \<^verbatim>\<open>isBackpressureActive\<close>.
\<close>

definition buffer_state :: "sock \<Rightarrow> real \<Rightarrow> sample" where
  "buffer_state s now =
     (let wl = or_default (writableLength s) 0;
          highWaterMark = or_default (writableHighWaterMark s) 16384;
          utilization = (real wl / real highWaterMark) * 100
      in \<lparr> timestamp = now, st_writableLength = wl,
           st_writableHighWaterMark = highWaterMark,
           bufferUtilization = utilization,
           backpressureActive = isBackpressureActive s,
           st_pending = pending s, st_readyState = readyState s \<rparr>)"

text \<open>\<^verbatim>\<open>push\<close> the new entry, then \<^verbatim>\<open>shift\<close> the oldest one out when there are more than 100.\<close>

definition push_history :: "sample list \<Rightarrow> sample \<Rightarrow> sample list" where
  "push_history h st = (let h' = h @ [st] in if length h' > 100 then tl h' else h')"

definition recordBufferState :: "monitor \<Rightarrow> sock \<Rightarrow> real \<Rightarrow> sample \<times> monitor" where
  "recordBufferState m s now =
     (let st = buffer_state s now
      in (st, m\<lparr>bufferHistory := push_history (bufferHistory m) st\<rparr>))"

text \<open>A series of recordings, each with the socket as it is then and the clock's value.\<close>

definition record_all :: "monitor \<Rightarrow> (sock \<times> real) list \<Rightarrow> monitor" where
  "record_all m obs = foldl (\<lambda>m' (s, now). snd (recordBufferState m' s now)) m obs"

text \<open>\<^verbatim>\<open>getStats\<close>: the object it returns, and the monitor after the call.\<close>

record efficiency =
  backpressureRatio :: real
  drainRatio :: real
  eff_avgWriteTime :: real

record stats_report =
  rep_stats :: stats
  currentBufferState :: sample
  rep_backpressureActive :: bool
  rep_bufferUtilization :: real
  rep_bufferHistory :: "sample list"
  rep_efficiency :: efficiency

text \<open>\<^verbatim>\<open>xs.slice(-n)\<close>: the last \<open>n\<close> entries.\<close>

definition slice_last :: "nat \<Rightarrow> 'a list \<Rightarrow> 'a list" where
  "slice_last n xs = drop (length xs - n) xs"

definition getStats :: "monitor \<Rightarrow> sock \<Rightarrow> real \<Rightarrow> stats_report \<times> monitor" where
  "getStats m s now =
     (let (st, m') = recordBufferState m s now;
          c = stats m'
      in (\<lparr> rep_stats = c,
            currentBufferState = st,
            rep_backpressureActive = isBackpressureActive s,
            rep_bufferUtilization = getBufferUtilization s,
            rep_bufferHistory = slice_last 10 (bufferHistory m'),
            rep_efficiency =
              \<lparr> backpressureRatio =
                   (real (backpressureEvents c) / real (max (writeAttempts c) 1)) * 100,
                 drainRatio = real (drainEvents c) / real (max (backpressureEvents c) 1),
                 eff_avgWriteTime = avgWriteTime c \<rparr> \<rparr>,
          m'))"

section \<open>DataGenerator (exercise-3-solution.js)\<close>

text \<open>
  The fields \<^verbatim>\<open>adjustRate\<close> and \<^verbatim>\<open>start\<close> assign. \<^verbatim>\<open>generationRate\<close> is the nominal
  rate of the producer, \<^verbatim>\<open>currentRate\<close> the rate it sends at now.
\<close>

record generator =
  isGenerating :: bool
  generatedBytes :: nat
  generationRate :: real
  currentRate :: real
  adaptiveMode :: bool

definition new_generator :: generator where
  "new_generator =
     \<lparr> isGenerating = False, generatedBytes = 0, generationRate = 1024,
       currentRate = 1024, adaptiveMode = False \<rparr>"

text \<open>
  The generator when \<^verbatim>\<open>start(socket, bytesPerSecond, adaptive)\<close> returns: the rates are
  set and the first chunk of 1024 bytes has been handed to the socket.
\<close>

definition start :: "generator \<Rightarrow> real \<Rightarrow> bool \<Rightarrow> generator" where
  "start g bytesPerSecond adaptive =
     g\<lparr> isGenerating := True, generationRate := bytesPerSecond,
        currentRate := bytesPerSecond, adaptiveMode := adaptive,
        generatedBytes := generatedBytes g + 1024 \<rparr>"

text \<open>
  \<^verbatim>\<open>adjustRate(backpressureDetected)\<close>: called with \<open>True\<close> by the handler of the
  monitor's \<^verbatim>\<open>backpressure\<close> event and with \<open>False\<close> by the handler of its \<^verbatim>\<open>drain\<close>
  event.
\<close>

definition adjustRate :: "generator \<Rightarrow> bool \<Rightarrow> generator" where
  "adjustRate g backpressureDetected =
     (if \<not> adaptiveMode g then g
      else if backpressureDetected
        then g\<lparr>currentRate := max (currentRate g * 0.5) (generationRate g * 0.1)\<rparr>
        else g\<lparr>currentRate := min (currentRate g * 1.2) (generationRate g)\<rparr>)"

section \<open>The monitor on a socket: start, stop and the socket's events\<close>

text \<open>
  What \<^verbatim>\<open>socket.write(data, encoding)\<close> is given: a \<^verbatim>\<open>Buffer\<close> with its bytes, or a
  string with the encoding argument when there is one.
\<close>

datatype payload = BufferData "nat list" | StringData string "string option"

text \<open>
  \<^verbatim>\<open>Buffer.isBuffer(data) ? data.length : Buffer.byteLength(data, args[1] || 'utf8')\<close>.
  \<^verbatim>\<open>Buffer.byteLength\<close> belongs to the runtime and is a parameter here.
\<close>

definition dataSize :: "(string \<Rightarrow> string \<Rightarrow> nat) \<Rightarrow> payload \<Rightarrow> nat" where
  "dataSize byteLength data =
     (case data of
        BufferData bytes \<Rightarrow> length bytes
      | StringData str enc \<Rightarrow>
          byteLength str
            (case enc of None \<Rightarrow> ''utf8'' | Some e \<Rightarrow> if e = [] then ''utf8'' else e))"

text \<open>What the monitor emits to its own subscribers.\<close>

datatype emitted =
    BackpressureEvent nat nat real
  | DrainEvent nat real

text \<open>
  The wrapper that \<^verbatim>\<open>startMonitoring\<close> stores in \<^verbatim>\<open>socket.write\<close>, around a call of the
  transport's own write. \<open>canWriteMore\<close> is what that call returned, \<open>s\<close> the socket after
  it, \<open>startTime\<close> and \<open>endTime\<close> the clock before and after it, \<open>now\<close> the clock when the
  event is emitted.
\<close>

definition monitor_write ::
  "(string \<Rightarrow> string \<Rightarrow> nat) \<Rightarrow> monitor \<Rightarrow> payload \<Rightarrow> bool \<Rightarrow> sock \<Rightarrow> real \<Rightarrow> real \<Rightarrow> real
     \<Rightarrow> bool \<times> emitted list \<times> monitor" where
  "monitor_write byteLength m data canWriteMore s startTime endTime now =
     (let c1 = (stats m)\<lparr>writeAttempts := writeAttempts (stats m) + 1\<rparr>;
          c2 = c1\<lparr>totalBytesWritten := totalBytesWritten c1 + dataSize byteLength data\<rparr>;
          writeTime = endTime - startTime;
          pushed = writeTimings m @ [writeTime];
          timings = (if length pushed > 100 then tl pushed else pushed);
          c3 = c2\<lparr>avgWriteTime := foldl (+) 0 timings / real (length timings)\<rparr>;
          c4 = (if \<not> canWriteMore
                then c3\<lparr>backpressureEvents := backpressureEvents c3 + 1\<rparr> else c3);
          out = (if \<not> canWriteMore
                 then [BackpressureEvent (writableLength s) (writableHighWaterMark s) now]
                 else []);
          c5 = c4\<lparr>maxBufferSize := max (maxBufferSize c4) (writableLength s)\<rparr>
      in (canWriteMore, out, m\<lparr>stats := c5, writeTimings := timings\<rparr>))"

text \<open>The handlers \<^verbatim>\<open>startMonitoring\<close> registers for the socket's drain, data and error events.\<close>

definition on_drain :: "monitor \<Rightarrow> sock \<Rightarrow> real \<Rightarrow> emitted list \<times> monitor" where
  "on_drain m s now =
     ([DrainEvent (writableLength s) now],
      m\<lparr>stats := (stats m)\<lparr>drainEvents := drainEvents (stats m) + 1\<rparr>\<rparr>)"

definition on_data :: "monitor \<Rightarrow> nat \<Rightarrow> monitor" where
  "on_data m len = m\<lparr>stats := (stats m)\<lparr>totalBytesRead := totalBytesRead (stats m) + len\<rparr>\<rparr>"

definition on_error :: "monitor \<Rightarrow> monitor" where
  "on_error m = m\<lparr>stats := (stats m)\<lparr>writeFailures := writeFailures (stats m) + 1\<rparr>\<rparr>"

text \<open>
  The monitor together with what it has installed outside itself: the \<^verbatim>\<open>write\<close> slot of
  the socket, how many times its four handlers (drain, data, error, close) are registered
  on the socket, and the intervals of the runtime that are still running.
\<close>

datatype interval_kind = Sampler | Dashboard

record mworld =
  mon :: monitor
  socket_write :: write_fn
  handler_sets :: nat
  intervals :: "(nat \<times> interval_kind) list"
  next_interval :: nat

definition new_mworld :: mworld where
  "new_mworld =
     \<lparr> mon = new_monitor, socket_write = NativeWrite, handler_sets = 0,
       intervals = [], next_interval = 0 \<rparr>"

definition clearInterval :: "nat option \<Rightarrow> (nat \<times> interval_kind) list \<Rightarrow> (nat \<times> interval_kind) list" where
  "clearInterval h ivs =
     (case h of None \<Rightarrow> ivs | Some t \<Rightarrow> filter (\<lambda>(t', k). t' \<noteq> t) ivs)"

definition startMonitoring :: "mworld \<Rightarrow> mworld" where
  "startMonitoring w =
     (let t1 = next_interval w; t2 = t1 + 1
      in w\<lparr> mon := (mon w)\<lparr> isMonitoring := True,
                            originalWrite := Some (socket_write w),
                            monitoringInterval := Some t1,
                            dashboardInterval := Some t2 \<rparr>,
            socket_write := MonitorWrite,
            handler_sets := handler_sets w + 1,
            intervals := intervals w @ [(t1, Sampler), (t2, Dashboard)],
            next_interval := t1 + 2 \<rparr>)"

definition stopMonitoring :: "mworld \<Rightarrow> mworld" where
  "stopMonitoring w =
     (if \<not> isMonitoring (mon w) then w
      else
        let m = (mon w)\<lparr>isMonitoring := False\<rparr>
        in w\<lparr> mon := m,
              socket_write := (case originalWrite m of Some f \<Rightarrow> f | None \<Rightarrow> socket_write w),
              intervals :=
                clearInterval (dashboardInterval m)
                  (clearInterval (monitoringInterval m) (intervals w)) \<rparr>)"

text \<open>
  What can happen to a monitored socket. A write carries what \<open>monitor_write\<close> needs; a
  drain, a firing interval and \<^verbatim>\<open>getStats\<close> carry the socket as it is then and the clock.
\<close>

datatype mevent =
    StartMonitoring
  | StopMonitoring
  | SocketWrite payload bool sock real real real
  | SocketDrain sock real
  | SocketData nat
  | SocketError
  | SocketClose
  | IntervalFires nat sock real
  | GetStats sock real

datatype js_error = RangeError

text \<open>
  One event. A write goes to whatever \<^verbatim>\<open>socket.write\<close> holds. The wrapper calls
  \<^verbatim>\<open>this.originalWrite\<close>; when a second \<^verbatim>\<open>startMonitoring\<close> has stored the wrapper itself
  there, the wrapper calls itself until the stack is exhausted. An event of the socket
  runs every registered copy of its handler; the close handler is \<^verbatim>\<open>stopMonitoring\<close>.
  A firing interval runs its callback only while it has not been cleared.
\<close>

definition mstep :: "(string \<Rightarrow> string \<Rightarrow> nat) \<Rightarrow> mworld \<Rightarrow> mevent \<Rightarrow> js_error + mworld" where
  "mstep byteLength w e =
     (case e of
        StartMonitoring \<Rightarrow> Inr (startMonitoring w)
      | StopMonitoring \<Rightarrow> Inr (stopMonitoring w)
      | SocketWrite data canWriteMore s startTime endTime now \<Rightarrow>
          (case socket_write w of
             NativeWrite \<Rightarrow> Inr w
           | MonitorWrite \<Rightarrow>
               (if originalWrite (mon w) = Some NativeWrite
                then Inr (w\<lparr>mon := snd (snd (monitor_write byteLength (mon w) data
                                                canWriteMore s startTime endTime now))\<rparr>)
                else Inl RangeError))
      | SocketDrain s now \<Rightarrow>
          Inr (w\<lparr>mon := ((\<lambda>m. snd (on_drain m s now)) ^^ handler_sets w) (mon w)\<rparr>)
      | SocketData len \<Rightarrow>
          Inr (w\<lparr>mon := ((\<lambda>m. on_data m len) ^^ handler_sets w) (mon w)\<rparr>)
      | SocketError \<Rightarrow>
          Inr (w\<lparr>mon := (on_error ^^ handler_sets w) (mon w)\<rparr>)
      | SocketClose \<Rightarrow> Inr ((stopMonitoring ^^ handler_sets w) w)
      | IntervalFires t s now \<Rightarrow>
          (if (t, Sampler) \<in> set (intervals w) \<and> isMonitoring (mon w)
           then Inr (w\<lparr>mon := snd (recordBufferState (mon w) s now)\<rparr>)
           else Inr w)
      | GetStats s now \<Rightarrow> Inr (w\<lparr>mon := snd (getStats (mon w) s now)\<rparr>))"

fun mrun :: "(string \<Rightarrow> string \<Rightarrow> nat) \<Rightarrow> mworld \<Rightarrow> mevent list \<Rightarrow> js_error + mworld" where
  "mrun byteLength w [] = Inr w"
| "mrun byteLength w (e # es) =
     (case mstep byteLength w e of Inl err \<Rightarrow> Inl err | Inr w' \<Rightarrow> mrun byteLength w' es)"

subsection \<open>The counters of the monitor\<close>

text \<open>
  The counters of \<^verbatim>\<open>stats\<close> compared one by one; \<^verbatim>\<open>avgWriteTime\<close> is an average, not a
  counter, and is left out.
\<close>

definition counters_le :: "stats \<Rightarrow> stats \<Rightarrow> bool" where
  "counters_le c c' \<longleftrightarrow>
     writeAttempts c \<le> writeAttempts c' \<and>
     backpressureEvents c \<le> backpressureEvents c' \<and>
     maxBufferSize c \<le> maxBufferSize c' \<and>
     drainEvents c \<le> drainEvents c' \<and>
     totalBytesWritten c \<le> totalBytesWritten c' \<and>
     totalBytesRead c \<le> totalBytesRead c' \<and>
     writeFailures c \<le> writeFailures c'"

section \<open>ConnectionPool (exercise-1-solution.js)\<close>

text \<open>
  A socket object is known to the pool by its identity, a number; the pool's own sockets
  are numbered in the order \<^verbatim>\<open>new MonitoredSocket()\<close> makes them.
\<close>

type_synonym sock_id = nat

text \<open>
  The fields of the pool. \<open>reuseCount\<close> is \<^verbatim>\<open>socket.metrics.reuseCount\<close> of each socket
  object, which \<^verbatim>\<open>acquire\<close> increments.
\<close>

record pool =
  available :: "sock_id list"
  inUse :: "sock_id set"
  maxSockets :: nat
  totalCreated :: nat
  totalReused :: nat
  acquisitions :: nat
  releases :: nat
  timeouts :: nat
  failures :: nat
  reuseCount :: "sock_id \<Rightarrow> nat"

definition new_pool :: "nat \<Rightarrow> pool" where
  "new_pool maxSockets' =
     \<lparr> available = [], inUse = {}, maxSockets = maxSockets', totalCreated = 0,
       totalReused = 0, acquisitions = 0, releases = 0, timeouts = 0, failures = 0,
       reuseCount = (\<lambda>s. 0) \<rparr>"

definition hasActiveHandle :: "sock \<Rightarrow> bool" where
  "hasActiveHandle s = (case handle s of None \<Rightarrow> False | Some d \<Rightarrow> \<not> d)"

definition isSocketHealthy :: "sock \<Rightarrow> bool" where
  "isSocketHealthy s \<longleftrightarrow>
     readyState s = ''open'' \<and> hasActiveHandle s \<and> \<not> destroyed s \<and> \<not> pending s"

text \<open>
  \<^verbatim>\<open>acquire\<close> up to the point where it returns or first suspends: it has reused a socket,
  or reserved a new one (\<open>fresh\<close>) and now awaits its connection, or has to wait for a
  release.
\<close>

datatype acquire_step = Reused sock_id | Connecting sock_id | Waiting

definition acquire_sync :: "pool \<Rightarrow> sock_id \<Rightarrow> acquire_step \<times> pool" where
  "acquire_sync p fresh =
     (let p1 = p\<lparr>acquisitions := acquisitions p + 1\<rparr>
      in if length (available p1) > 0 then
           let socket = last (available p1)
           in (Reused socket,
               p1\<lparr> available := butlast (available p1),
                   inUse := insert socket (inUse p1),
                   reuseCount := (reuseCount p1)(socket := reuseCount p1 socket + 1),
                   totalReused := totalReused p1 + 1 \<rparr>)
         else if card (inUse p1) < maxSockets p1 then
           (Connecting fresh,
            p1\<lparr> inUse := insert fresh (inUse p1), totalCreated := totalCreated p1 + 1 \<rparr>)
         else (Waiting, p1))"

text \<open>The \<^verbatim>\<open>catch\<close> block of \<^verbatim>\<open>acquire\<close>, before it throws the error on.\<close>

definition connect_failed :: "pool \<Rightarrow> sock_id \<Rightarrow> pool" where
  "connect_failed p socket = p\<lparr> inUse := inUse p - {socket}, failures := failures p + 1 \<rparr>"

text \<open>The callback of the 5000 ms timer of a waiting \<^verbatim>\<open>acquire\<close>, before it rejects.\<close>

definition timeout_fired :: "pool \<Rightarrow> pool" where
  "timeout_fired p = p\<lparr> timeouts := timeouts p + 1 \<rparr>"

text \<open>
  \<^verbatim>\<open>release(socket)\<close>, with \<open>st\<close> the socket as it is then. The report is the line the
  method logs: the warning, the release to the pool (after which \<^verbatim>\<open>socketReleased\<close> is
  emitted), or the destruction of the socket.
\<close>

datatype release_report = WarnNotInUse sock_id | ReleasedToPool sock_id | SocketDestroyed sock_id

definition release :: "pool \<Rightarrow> sock_id \<Rightarrow> sock \<Rightarrow> release_report \<times> pool" where
  "release p socket st =
     (let p1 = p\<lparr>releases := releases p + 1\<rparr>
      in if socket \<notin> inUse p1 then (WarnNotInUse socket, p1)
         else
           let p2 = p1\<lparr>inUse := inUse p1 - {socket}\<rparr>
           in if isSocketHealthy st \<and> length (available p2) < maxSockets p2
              then (ReleasedToPool socket, p2\<lparr>available := available p2 @ [socket]\<rparr>)
              else (SocketDestroyed socket, p2))"

subsection \<open>The pool among its callers\<close>

text \<open>
  \<^verbatim>\<open>acquire\<close> is asynchronous. Each call of a caller is a request, numbered in order; its
  promise is pending (\<open>None\<close>), resolved with a socket or rejected with an error, and once
  settled it stays so. \<open>connecting\<close> holds the sockets whose connection an \<^verbatim>\<open>acquire\<close>
  awaits, \<open>waiters\<close> the listeners registered with \<^verbatim>\<open>once('socketReleased', ...)\<close> in
  order, \<open>timers\<close> the timeouts that are still running; each entry names the request it
  works for.
\<close>

datatype acquire_error = TimeoutWaitingForSocket | ConnectError string

datatype outcome = Resolved sock_id | Rejected acquire_error

record pool_world =
  pool :: pool
  nextSocket :: sock_id
  nextRequest :: nat
  nextTimer :: nat
  connecting :: "(sock_id \<times> nat) list"
  waiters :: "(nat \<times> nat) list"
  timers :: "(nat \<times> nat) list"
  results :: "nat \<Rightarrow> outcome option"

definition new_world :: "nat \<Rightarrow> pool_world" where
  "new_world maxSockets' =
     \<lparr> pool = new_pool maxSockets', nextSocket = 0, nextRequest = 0, nextTimer = 0,
       connecting = [], waiters = [], timers = [], results = (\<lambda>r. None) \<rparr>"

definition settle :: "nat \<Rightarrow> outcome \<Rightarrow> pool_world \<Rightarrow> pool_world" where
  "settle r out w = (if results w r = None then w\<lparr>results := (results w)(r := Some out)\<rparr> else w)"

definition without :: "nat \<Rightarrow> (nat \<times> nat) list \<Rightarrow> (nat \<times> nat) list" where
  "without k xs = filter (\<lambda>(k', v). k' \<noteq> k) xs"

text \<open>A call \<^verbatim>\<open>this.acquire(options)\<close> whose result goes to request \<open>r\<close>.\<close>

definition acquire_for :: "nat \<Rightarrow> pool_world \<Rightarrow> pool_world" where
  "acquire_for r w =
     (case acquire_sync (pool w) (nextSocket w) of
        (Reused s, p) \<Rightarrow> settle r (Resolved s) (w\<lparr>pool := p\<rparr>)
      | (Connecting s, p) \<Rightarrow>
          w\<lparr> pool := p, nextSocket := nextSocket w + 1,
             connecting := connecting w @ [(s, r)] \<rparr>
      | (Waiting, p) \<Rightarrow>
          w\<lparr> pool := p, nextTimer := nextTimer w + 1,
             timers := timers w @ [(nextTimer w, r)],
             waiters := waiters w @ [(nextTimer w, r)] \<rparr>)"

text \<open>
  \<^verbatim>\<open>emit('socketReleased')\<close> calls the listeners registered so far, in order, each once:
  the listener clears its timer and calls \<^verbatim>\<open>acquire\<close> again for its request. Listeners
  registered meanwhile are not called by this \<^verbatim>\<open>emit\<close>.
\<close>

fun run_listeners :: "(nat \<times> nat) list \<Rightarrow> pool_world \<Rightarrow> pool_world" where
  "run_listeners [] w = w"
| "run_listeners ((t, r) # ls) w =
     run_listeners ls (acquire_for r (w\<lparr>timers := without t (timers w)\<rparr>))"

definition emit_socketReleased :: "pool_world \<Rightarrow> pool_world" where
  "emit_socketReleased w = run_listeners (waiters w) (w\<lparr>waiters := []\<rparr>)"

datatype pool_event =
    Acquire
  | ConnectSucceeds sock_id
  | ConnectFails sock_id string
  | Release sock_id sock
  | TimeoutFires nat

definition pool_step :: "pool_world \<Rightarrow> pool_event \<Rightarrow> pool_world" where
  "pool_step w e =
     (case e of
        Acquire \<Rightarrow> acquire_for (nextRequest w) (w\<lparr>nextRequest := nextRequest w + 1\<rparr>)
      | ConnectSucceeds s \<Rightarrow>
          (case map_of (connecting w) s of
             None \<Rightarrow> w
           | Some r \<Rightarrow> settle r (Resolved s) (w\<lparr>connecting := without s (connecting w)\<rparr>))
      | ConnectFails s msg \<Rightarrow>
          (case map_of (connecting w) s of
             None \<Rightarrow> w
           | Some r \<Rightarrow>
               settle r (Rejected (ConnectError msg))
                 (w\<lparr> connecting := without s (connecting w),
                     pool := connect_failed (pool w) s \<rparr>))
      | Release s st \<Rightarrow>
          (case release (pool w) s st of
             (ReleasedToPool s', p) \<Rightarrow> emit_socketReleased (w\<lparr>pool := p\<rparr>)
           | (report, p) \<Rightarrow> w\<lparr>pool := p\<rparr>)
      | TimeoutFires t \<Rightarrow>
          (case map_of (timers w) t of
             None \<Rightarrow> w
           | Some r \<Rightarrow>
               settle r (Rejected TimeoutWaitingForSocket)
                 (w\<lparr> timers := without t (timers w), pool := timeout_fired (pool w) \<rparr>)))"

definition pool_run :: "pool_world \<Rightarrow> pool_event list \<Rightarrow> pool_world" where
  "pool_run w es = foldl pool_step w es"

definition is_Release :: "pool_event \<Rightarrow> bool" where
  "is_Release e = (case e of Release s st \<Rightarrow> True | _ \<Rightarrow> False)"

subsection \<open>Invariants of the pool and a scripted run\<close>

text \<open>
  The sockets the pool tracks, in use or available, never number more than its size.
\<close>

definition pool_ok :: "pool \<Rightarrow> bool" where
  "pool_ok p \<longleftrightarrow> finite (inUse p) \<and> card (inUse p) + length (available p) \<le> maxSockets p"

text \<open>
  Every socket and every request the pool knows of has been handed out already: the next
  socket and the next request are new. A live timer has a number below the next one.
\<close>

definition world_wf :: "pool_world \<Rightarrow> bool" where
  "world_wf w \<longleftrightarrow>
     (\<forall>s \<in> inUse (pool w). s < nextSocket w) \<and>
     (\<forall>s \<in> set (available (pool w)). s < nextSocket w) \<and>
     (\<forall>x \<in> set (connecting w). fst x < nextSocket w \<and> snd x < nextRequest w) \<and>
     (\<forall>x \<in> set (waiters w). snd x < nextRequest w) \<and>
     (\<forall>x \<in> set (timers w). fst x < nextTimer w \<and> snd x < nextRequest w) \<and>
     (\<forall>r. nextRequest w \<le> r \<longrightarrow> results w r = None)"

text \<open>
  The scenario of the specification on a pool of size 3: three acquisitions, each of which
  connects; the release of all three sockets, with the socket as it is at release;
  three more acquisitions.
\<close>

definition create_three :: "pool_event list" where
  "create_three =
     [Acquire, ConnectSucceeds 0, Acquire, ConnectSucceeds 1, Acquire, ConnectSucceeds 2]"

definition release_three :: "sock \<Rightarrow> pool_event list" where
  "release_three st = [Release 0 st, Release 1 st, Release 2 st]"

definition acquire_three :: "pool_event list" where
  "acquire_three = [Acquire, Acquire, Acquire]"

definition healthy_sock :: sock where
  "healthy_sock =
     \<lparr> writableLength = 0, writableHighWaterMark = 16384, destroyed = False,
       pending = False, readyState = ''open'', handle = Some False \<rparr>"

section \<open>Properties of the monitor's samples\<close>







section \<open>Properties of the history buffer\<close>

lemma drop_one_tl: "drop (Suc 0) xs = tl xs"
  by (simp add: drop_Suc)

lemma push_history_cases:
  "push_history h st = (if length h < 100 then h @ [st] else tl h @ [st])"
proof (cases "length h < 100")
  case True
  then show ?thesis by (simp add: push_history_def Let_def)
next
  case False
  then have "h \<noteq> []" by auto
  with False show ?thesis by (simp add: push_history_def Let_def)
qed

lemma push_history_length: "length h \<le> 100 \<Longrightarrow> length (push_history h st) \<le> 100"
  by (simp add: push_history_def Let_def)

lemma push_history_drop:
  "length h \<le> 100 \<Longrightarrow> push_history h st = drop (length (h @ [st]) - 100) (h @ [st])"
proof (cases "length h = 100")
  case True
  then have "length (h @ [st]) - 100 = Suc 0" by simp
  then have "drop (length (h @ [st]) - 100) (h @ [st]) = tl (h @ [st])"
    by (simp only: drop_one_tl)
  then show ?thesis using True by (simp add: push_history_def Let_def)
next
  case False
  assume "length h \<le> 100"
  with False have "length h < 100" by simp
  then show ?thesis by (simp add: push_history_def Let_def)
qed

lemma keep_last_snoc:
  "drop (length (drop (length xs - k) xs @ [y]) - k) (drop (length xs - k) xs @ [y]) =
   drop (length (xs @ [y]) - k) (xs @ [y])"
proof (cases "length xs \<le> k")
  case True
  then show ?thesis by simp
next
  case False
  then have "length xs - k + 1 = length xs + 1 - k" by simp
  with False show ?thesis by (simp add: Suc_diff_le)
qed

lemma record_all_snoc:
  "record_all m (obs @ [(s, now)]) = snd (recordBufferState (record_all m obs) s now)"
  by (simp add: record_all_def)

lemma bufferHistory_recordBufferState:
  "bufferHistory (snd (recordBufferState m s now)) =
     push_history (bufferHistory m) (buffer_state s now)"
  by (simp add: recordBufferState_def Let_def)

lemma bufferHistory_record_all:
  assumes "length (bufferHistory m) \<le> 100"
  shows "bufferHistory (record_all m obs) =
           slice_last 100 (bufferHistory m @ map (\<lambda>(s, now). buffer_state s now) obs)"
proof (induction obs rule: rev_induct)
  case Nil
  from assms show ?case by (simp add: record_all_def slice_last_def)
next
  case (snoc x obs)
  obtain s now where x: "x = (s, now)" by (cases x)
  let ?all = "bufferHistory m @ map (\<lambda>(s, now). buffer_state s now) obs"
  let ?st = "buffer_state s now"
  have ih: "bufferHistory (record_all m obs) = drop (length ?all - 100) ?all"
    using snoc by (simp add: slice_last_def)
  have len: "length (bufferHistory (record_all m obs)) \<le> 100"
    by (simp add: ih)
  have "bufferHistory (record_all m (obs @ [x])) =
          push_history (bufferHistory (record_all m obs)) ?st"
    by (simp add: x record_all_snoc bufferHistory_recordBufferState)
  also have "\<dots> = drop (length (drop (length ?all - 100) ?all @ [?st]) - 100)
                     (drop (length ?all - 100) ?all @ [?st])"
    using push_history_drop [OF len] by (simp only: ih)
  also have "\<dots> = drop (length (?all @ [?st]) - 100) (?all @ [?st])"
    by (rule keep_last_snoc)
  finally show ?case by (simp add: x slice_last_def)
qed

text \<open>
  C4. Whatever series of samples a new monitor records, its history holds at most 100
  entries and is exactly the last 100 (or all, when fewer) of the samples recorded, in
  the order they were recorded. One recording appends the new sample and, when the buffer
  already held 100, drops its first (oldest) entry.
\<close>

theorem history_is_last_100_samples:
  "length (bufferHistory (record_all new_monitor obs)) \<le> 100 \<and>
   bufferHistory (record_all new_monitor obs) =
     slice_last 100 (map (\<lambda>(s, now). buffer_state s now) obs) \<and>
   bufferHistory (snd (recordBufferState m s now)) =
     (if length (bufferHistory m) < 100 then bufferHistory m @ [buffer_state s now]
      else tl (bufferHistory m) @ [buffer_state s now])"
proof -
  have h0: "length (bufferHistory new_monitor) \<le> 100"
    by (simp add: new_monitor_def)
  have eq: "bufferHistory (record_all new_monitor obs) =
              slice_last 100 (map (\<lambda>(s, now). buffer_state s now) obs)"
    using bufferHistory_record_all [OF h0, of obs] by (simp add: new_monitor_def)
  have "length (bufferHistory (record_all new_monitor obs)) \<le> 100"
    by (simp add: eq slice_last_def)
  moreover have "bufferHistory (snd (recordBufferState m s now)) =
     (if length (bufferHistory m) < 100 then bufferHistory m @ [buffer_state s now]
      else tl (bufferHistory m) @ [buffer_state s now])"
    by (simp only: bufferHistory_recordBufferState push_history_cases)
  ultimately show ?thesis using eq by simp
qed

text \<open>
  C10. \<^verbatim>\<open>getStats\<close> is not a pure read. Each call records one sample: the monitor's
  history afterwards is the old one with the fresh sample appended (its oldest entry
  dropped when it already held 100), the fresh sample is what the report carries as
  \<^verbatim>\<open>currentBufferState\<close> and is the last entry of the history, and the counters are left
  alone. Below the cap the history grows by one entry with each call, so it differs from
  the history before; a second call right after the first appends a second sample.
\<close>

theorem getStats_records_a_sample:
  "(let st = buffer_state s now;
        m1 = snd (getStats m s now);
        m2 = snd (getStats m1 s' now')
    in currentBufferState (fst (getStats m s now)) = st \<and>
       bufferHistory m1 =
         (if length (bufferHistory m) < 100 then bufferHistory m @ [st]
          else tl (bufferHistory m) @ [st]) \<and>
       last (bufferHistory m1) = st \<and>
       length (bufferHistory m1) =
         (if length (bufferHistory m) < 100 then length (bufferHistory m) + 1
          else length (bufferHistory m)) \<and>
       stats m1 = stats m \<and>
       (length (bufferHistory m) < 100 \<longrightarrow> bufferHistory m1 \<noteq> bufferHistory m) \<and>
       bufferHistory m2 =
         (if length (bufferHistory m1) < 100 then bufferHistory m1 @ [buffer_state s' now']
          else tl (bufferHistory m1) @ [buffer_state s' now']))"
proof -
  have g: "\<And>m s now. bufferHistory (snd (getStats m s now)) =
             push_history (bufferHistory m) (buffer_state s now)"
    by (simp add: getStats_def recordBufferState_def Let_def)
  have c: "currentBufferState (fst (getStats m s now)) = buffer_state s now"
    by (simp add: getStats_def recordBufferState_def Let_def)
  have s: "stats (snd (getStats m s now)) = stats m"
    by (simp add: getStats_def recordBufferState_def Let_def)
  have l: "length (bufferHistory m) \<ge> 100 \<Longrightarrow> bufferHistory m \<noteq> []"
    by auto
  show ?thesis
    unfolding Let_def g c s push_history_cases using l by auto
qed

theorem getStats_records_a_sample_witness:
  "length (bufferHistory new_monitor) < 100 \<and>
   bufferHistory (snd (getStats new_monitor
      \<lparr> writableLength = 8192, writableHighWaterMark = 16384, destroyed = False,
        pending = False, readyState = ''open'', handle = Some False \<rparr> 5)) \<noteq>
     bufferHistory new_monitor \<and>
   length (bufferHistory (snd (getStats (snd (getStats new_monitor
      \<lparr> writableLength = 8192, writableHighWaterMark = 16384, destroyed = False,
        pending = False, readyState = ''open'', handle = Some False \<rparr> 5))
      \<lparr> writableLength = 8192, writableHighWaterMark = 16384, destroyed = False,
        pending = False, readyState = ''open'', handle = Some False \<rparr> 5))) = 2"
  using getStats_records_a_sample [of
      "\<lparr> writableLength = 8192, writableHighWaterMark = 16384, destroyed = False,
         pending = False, readyState = ''open'', handle = Some False \<rparr>" 5 new_monitor
      "\<lparr> writableLength = 8192, writableHighWaterMark = 16384, destroyed = False,
         pending = False, readyState = ''open'', handle = Some False \<rparr>" 5]
  by (simp add: Let_def new_monitor_def)

section \<open>Properties of the adaptive producer\<close>

lemma adjustRate_generationRate: "generationRate (adjustRate g b) = generationRate g"
  by (simp add: adjustRate_def)

lemma adjustRate_adaptiveMode: "adaptiveMode (adjustRate g b) = adaptiveMode g"
  by (simp add: adjustRate_def)

lemma adjustRate_within:
  assumes "0 \<le> generationRate g"
    and "generationRate g * 0.1 \<le> currentRate g"
    and "currentRate g \<le> generationRate g"
  shows "generationRate g * 0.1 \<le> currentRate (adjustRate g b) \<and>
         currentRate (adjustRate g b) \<le> generationRate g"
  using assms by (auto simp add: adjustRate_def)

lemma adjustRate_run_within:
  assumes "0 \<le> generationRate g"
    and "generationRate g * 0.1 \<le> currentRate g"
    and "currentRate g \<le> generationRate g"
  shows "generationRate (foldl adjustRate g fb) = generationRate g \<and>
         generationRate g * 0.1 \<le> currentRate (foldl adjustRate g fb) \<and>
         currentRate (foldl adjustRate g fb) \<le> generationRate g"
proof (induction fb rule: rev_induct)
  case Nil
  from assms show ?case by simp
next
  case (snoc b fb)
  let ?g = "foldl adjustRate g fb"
  from snoc assms have "0 \<le> generationRate ?g"
    and "generationRate ?g * 0.1 \<le> currentRate ?g"
    and "currentRate ?g \<le> generationRate ?g"
    by simp_all
  from adjustRate_within [OF this, of b] snoc show ?case
    by (simp add: adjustRate_generationRate)
qed

text \<open>
  C3. In adaptive mode, a saturation event sets the rate to half the prior rate, or to 10%
  of the nominal rate when half the prior rate is below that floor; a drain event sets it
  to 1.2 times the prior rate, or to the nominal rate when that product is above the cap.
  The nominal rate is never changed. A producer started in adaptive mode with a nominal
  rate that is not negative keeps its rate between 10% of nominal and nominal through
  every series of saturation and drain events.
\<close>

theorem adjustRate_halves_or_raises_within_bounds:
  "adaptiveMode g \<longrightarrow>
     currentRate (adjustRate g True) = max (0.5 * currentRate g) (0.1 * generationRate g) \<and>
     currentRate (adjustRate g False) = min (1.2 * currentRate g) (generationRate g) \<and>
     (0.1 * generationRate g \<le> 0.5 * currentRate g \<longrightarrow>
        currentRate (adjustRate g True) \<le> 0.5 * currentRate g) \<and>
     0.1 * generationRate g \<le> currentRate (adjustRate g True) \<and>
     (1.2 * currentRate g \<le> generationRate g \<longrightarrow>
        1.2 * currentRate g \<le> currentRate (adjustRate g False)) \<and>
     currentRate (adjustRate g False) \<le> generationRate g \<and>
     generationRate (adjustRate g b) = generationRate g \<and>
     (0 \<le> nominal \<longrightarrow>
        0.1 * nominal \<le> currentRate (foldl adjustRate (start g0 nominal True) fb) \<and>
        currentRate (foldl adjustRate (start g0 nominal True) fb) \<le> nominal)"
proof -
  have run: "0 \<le> nominal \<Longrightarrow>
        0.1 * nominal \<le> currentRate (foldl adjustRate (start g0 nominal True) fb) \<and>
        currentRate (foldl adjustRate (start g0 nominal True) fb) \<le> nominal"
    using adjustRate_run_within [of "start g0 nominal True" fb]
    by (simp add: start_def)
  show ?thesis
    using run by (auto simp add: adjustRate_def mult.commute)
qed

text \<open>
  The scripted sequence of the specification on a producer started at 1000 bytes per
  second: three saturations take the rate to 500, 250 and 125, three drains then to 150,
  180 and 216, all between the floor 100 and the cap 1000.
\<close>

theorem adjustRate_halves_or_raises_within_bounds_witness:
  "adaptiveMode (start new_generator 1000 True) \<and>
   0.1 * generationRate (start new_generator 1000 True) \<le>
     0.5 * currentRate (start new_generator 1000 True) \<and>
   currentRate (adjustRate (start new_generator 1000 True) True) = 500 \<and>
   currentRate (adjustRate (start new_generator 1000 True) False) = 1000 \<and>
   adaptiveMode (adjustRate (start new_generator 1000 True) True) \<and>
   1.2 * currentRate (adjustRate (start new_generator 1000 True) True) \<le>
     generationRate (adjustRate (start new_generator 1000 True) True) \<and>
   currentRate (adjustRate (adjustRate (start new_generator 1000 True) True) False) = 600 \<and>
   (0::real) \<le> 1000 \<and>
   0.1 * 1000 \<le>
     currentRate (foldl adjustRate (start new_generator 1000 True)
       [True, True, True, False, False, False]) \<and>
   currentRate (foldl adjustRate (start new_generator 1000 True)
       [True, True, True, False, False, False]) = 216"
  using adjustRate_halves_or_raises_within_bounds
    [where g = "start new_generator 1000 True" and nominal = 1000 and ?g0.0 = new_generator
       and fb = "[True, True, True, False, False, False]"]
    adjustRate_halves_or_raises_within_bounds
    [where g = "adjustRate (start new_generator 1000 True) True"]
  by (simp add: start_def new_generator_def adjustRate_def)

section \<open>Properties of the connection pool\<close>

subsection \<open>The bound on the sockets in use\<close>

lemma card_insert_le_Suc: "finite A \<Longrightarrow> card (insert x A) \<le> Suc (card A)"
  by (simp add: card_insert_if)

lemma acquire_sync_reuse:
  "available p \<noteq> [] \<Longrightarrow>
   acquire_sync p f =
     (Reused (last (available p)),
      p\<lparr> acquisitions := acquisitions p + 1,
         available := butlast (available p),
         inUse := insert (last (available p)) (inUse p),
         reuseCount := (reuseCount p)(last (available p) := reuseCount p (last (available p)) + 1),
         totalReused := totalReused p + 1 \<rparr>)"
  by (simp add: acquire_sync_def Let_def)

lemma acquire_sync_create:
  "available p = [] \<Longrightarrow> card (inUse p) < maxSockets p \<Longrightarrow>
   acquire_sync p f =
     (Connecting f,
      p\<lparr> acquisitions := acquisitions p + 1,
         inUse := insert f (inUse p),
         totalCreated := totalCreated p + 1 \<rparr>)"
  by (simp add: acquire_sync_def Let_def)

lemma acquire_sync_wait:
  "available p = [] \<Longrightarrow> \<not> card (inUse p) < maxSockets p \<Longrightarrow>
   acquire_sync p f = (Waiting, p\<lparr> acquisitions := acquisitions p + 1 \<rparr>)"
  by (simp add: acquire_sync_def Let_def)

lemma acquire_sync_ok:
  assumes "pool_ok p"
  shows "pool_ok (snd (acquire_sync p f)) \<and> maxSockets (snd (acquire_sync p f)) = maxSockets p"
proof -
  from assms have fin: "finite (inUse p)"
    and le: "card (inUse p) + length (available p) \<le> maxSockets p"
    by (simp_all add: pool_ok_def)
  show ?thesis
  proof (cases "available p = []")
    case True
    show ?thesis
    proof (cases "card (inUse p) < maxSockets p")
      case True
      with \<open>available p = []\<close> fin card_insert_le_Suc [OF fin, of f] show ?thesis
        by (simp add: acquire_sync_create pool_ok_def)
    next
      case False
      with \<open>available p = []\<close> fin le show ?thesis
        by (simp add: acquire_sync_wait pool_ok_def)
    qed
  next
    case False
    then have "Suc (length (butlast (available p))) = length (available p)" by simp
    with le card_insert_le_Suc [OF fin, of "last (available p)"]
    have "card (insert (last (available p)) (inUse p)) + length (butlast (available p))
            \<le> maxSockets p"
      by linarith
    with False fin show ?thesis
      by (simp add: acquire_sync_reuse pool_ok_def del: length_butlast)
  qed
qed

lemma release_not_inUse:
  "s \<notin> inUse p \<Longrightarrow> release p s st = (WarnNotInUse s, p\<lparr>releases := releases p + 1\<rparr>)"
  by (simp add: release_def Let_def)

lemma release_inUse:
  "s \<in> inUse p \<Longrightarrow>
   release p s st =
     (if isSocketHealthy st \<and> length (available p) < maxSockets p
      then (ReleasedToPool s,
            p\<lparr> releases := releases p + 1, inUse := inUse p - {s},
               available := available p @ [s] \<rparr>)
      else (SocketDestroyed s, p\<lparr> releases := releases p + 1, inUse := inUse p - {s} \<rparr>))"
  by (simp add: release_def Let_def)

lemma release_ok:
  assumes "pool_ok p"
  shows "pool_ok (snd (release p s st)) \<and> maxSockets (snd (release p s st)) = maxSockets p"
proof -
  from assms have fin: "finite (inUse p)"
    and le: "card (inUse p) + length (available p) \<le> maxSockets p"
    by (simp_all add: pool_ok_def)
  show ?thesis
  proof (cases "s \<in> inUse p")
    case False
    with fin le show ?thesis by (simp add: release_not_inUse pool_ok_def)
  next
    case True
    have "Suc (card (inUse p - {s})) = card (inUse p)"
      using fin True by (rule card_Suc_Diff1)
    with le have "Suc (card (inUse p - {s}) + length (available p)) \<le> maxSockets p"
      by linarith
    with True fin show ?thesis
      by (simp add: release_inUse pool_ok_def del: card_Diff_insert)
  qed
qed

lemma connect_failed_ok:
  assumes "pool_ok p"
  shows "pool_ok (connect_failed p s) \<and> maxSockets (connect_failed p s) = maxSockets p"
proof -
  from assms have fin: "finite (inUse p)"
    and le: "card (inUse p) + length (available p) \<le> maxSockets p"
    by (simp_all add: pool_ok_def)
  have "card (inUse p - {s}) \<le> card (inUse p)"
    using fin by (simp add: card_Diff1_le)
  with fin le show ?thesis by (simp add: connect_failed_def pool_ok_def)
qed

lemma timeout_fired_ok:
  "pool_ok p \<Longrightarrow> pool_ok (timeout_fired p) \<and> maxSockets (timeout_fired p) = maxSockets p"
  by (simp add: timeout_fired_def pool_ok_def)

lemma pool_settle [simp]: "pool (settle r out w) = pool w"
  by (simp add: settle_def)

lemma pool_acquire_for: "pool (acquire_for r w) = snd (acquire_sync (pool w) (nextSocket w))"
  by (cases "acquire_sync (pool w) (nextSocket w)" rule: prod.exhaust)
     (auto simp add: acquire_for_def split: acquire_step.splits)

lemma acquire_for_ok:
  "pool_ok (pool w) \<Longrightarrow>
   pool_ok (pool (acquire_for r w)) \<and> maxSockets (pool (acquire_for r w)) = maxSockets (pool w)"
  by (simp add: pool_acquire_for acquire_sync_ok)

lemma run_listeners_ok:
  "pool_ok (pool w) \<Longrightarrow>
   pool_ok (pool (run_listeners ls w)) \<and>
   maxSockets (pool (run_listeners ls w)) = maxSockets (pool w)"
proof (induction ls w rule: run_listeners.induct)
  case (1 w)
  then show ?case by simp
next
  case (2 t r ls w)
  let ?w = "w\<lparr>timers := without t (timers w)\<rparr>"
  from 2 have "pool_ok (pool ?w)" by simp
  from acquire_for_ok [OF this, of r] 2 show ?case by simp
qed

lemma pool_step_ok:
  assumes "pool_ok (pool w)"
  shows "pool_ok (pool (pool_step w e)) \<and> maxSockets (pool (pool_step w e)) = maxSockets (pool w)"
proof (cases e)
  case Acquire
  let ?w = "w\<lparr>nextRequest := nextRequest w + 1\<rparr>"
  from assms have "pool_ok (pool ?w)" by simp
  from acquire_for_ok [OF this] Acquire show ?thesis by (simp add: pool_step_def)
next
  case (ConnectSucceeds s)
  with assms show ?thesis by (simp add: pool_step_def split: option.splits)
next
  case (ConnectFails s msg)
  with assms connect_failed_ok [OF assms, of s] show ?thesis
    by (simp add: pool_step_def split: option.splits)
next
  case (Release s st)
  obtain rep p where rp: "release (pool w) s st = (rep, p)" by (cases "release (pool w) s st")
  from release_ok [OF assms, of s st] rp have p: "pool_ok p" "maxSockets p = maxSockets (pool w)"
    by simp_all
  show ?thesis
  proof (cases rep)
    case (ReleasedToPool s')
    let ?w = "w\<lparr>pool := p, waiters := []\<rparr>"
    from p have "pool_ok (pool ?w)" by simp
    from run_listeners_ok [OF this, of "waiters w"] p Release rp ReleasedToPool show ?thesis
      by (simp add: pool_step_def emit_socketReleased_def)
  qed (use p Release rp in \<open>simp_all add: pool_step_def\<close>)
next
  case (TimeoutFires t)
  with assms timeout_fired_ok [OF assms] show ?thesis
    by (simp add: pool_step_def split: option.splits)
qed

lemma pool_run_ok:
  "pool_ok (pool w) \<Longrightarrow>
   pool_ok (pool (pool_run w es)) \<and> maxSockets (pool (pool_run w es)) = maxSockets (pool w)"
proof (induction es rule: rev_induct)
  case Nil
  then show ?case by (simp add: pool_run_def)
next
  case (snoc e es)
  then have "pool_ok (pool (pool_run w es))" by simp
  from pool_step_ok [OF this, of e] snoc show ?case by (simp add: pool_run_def)
qed

lemma new_world_ok: "pool_ok (pool (new_world N)) \<and> maxSockets (pool (new_world N)) = N"
  by (simp add: new_world_def new_pool_def pool_ok_def)

lemma inUse_bounded: "card (inUse (pool (pool_run (new_world N) es))) \<le> N"
  using pool_run_ok [of "new_world N" es] new_world_ok [of N]
  by (simp add: pool_ok_def)

subsection \<open>Sockets and requests are handed out once\<close>

lemma acquire_for_reuse:
  "available (pool w) \<noteq> [] \<Longrightarrow>
   acquire_for r w =
     settle r (Resolved (last (available (pool w))))
       (w\<lparr>pool := snd (acquire_sync (pool w) (nextSocket w))\<rparr>)"
  by (simp add: acquire_for_def acquire_sync_reuse)

lemma acquire_for_create:
  "available (pool w) = [] \<Longrightarrow> card (inUse (pool w)) < maxSockets (pool w) \<Longrightarrow>
   acquire_for r w =
     w\<lparr> pool := snd (acquire_sync (pool w) (nextSocket w)),
        nextSocket := nextSocket w + 1,
        connecting := connecting w @ [(nextSocket w, r)] \<rparr>"
  by (simp add: acquire_for_def acquire_sync_create)

lemma acquire_for_wait:
  "available (pool w) = [] \<Longrightarrow> \<not> card (inUse (pool w)) < maxSockets (pool w) \<Longrightarrow>
   acquire_for r w =
     w\<lparr> pool := snd (acquire_sync (pool w) (nextSocket w)),
        nextTimer := nextTimer w + 1,
        timers := timers w @ [(nextTimer w, r)],
        waiters := waiters w @ [(nextTimer w, r)] \<rparr>"
  by (simp add: acquire_for_def acquire_sync_wait)

lemma set_without: "set (without k xs) \<subseteq> set xs"
  by (auto simp add: without_def)

lemma settle_fields [simp]:
  "nextSocket (settle r out w) = nextSocket w"
  "nextRequest (settle r out w) = nextRequest w"
  "nextTimer (settle r out w) = nextTimer w"
  "connecting (settle r out w) = connecting w"
  "waiters (settle r out w) = waiters w"
  "timers (settle r out w) = timers w"
  by (simp_all add: settle_def)

lemma results_settle:
  "results (settle r out w) r' =
     (if r' = r \<and> results w r = None then Some out else results w r')"
  by (simp add: settle_def)

lemma settle_wf: "world_wf w \<Longrightarrow> r < nextRequest w \<Longrightarrow> world_wf (settle r out w)"
  by (auto simp add: world_wf_def results_settle)

lemma acquire_for_wf:
  assumes "world_wf w" and "r < nextRequest w"
  shows "world_wf (acquire_for r w)"
proof (cases "available (pool w) = []")
  case False
  then have l: "last (available (pool w)) \<in> set (available (pool w))" by simp
  have b: "\<And>x. x \<in> set (butlast (available (pool w))) \<Longrightarrow> x \<in> set (available (pool w))"
    by (rule in_set_butlastD)
  let ?w = "w\<lparr>pool := snd (acquire_sync (pool w) (nextSocket w))\<rparr>"
  from assms l b False have "world_wf ?w"
    by (auto simp add: world_wf_def acquire_sync_reuse)
  moreover have "r < nextRequest ?w" using assms by simp
  ultimately have "world_wf (settle r (Resolved (last (available (pool w)))) ?w)"
    by (rule settle_wf)
  then show ?thesis unfolding acquire_for_reuse [OF False] .
next
  case True
  show ?thesis
  proof (cases "card (inUse (pool w)) < maxSockets (pool w)")
    case c: True
    from assms True c show ?thesis
      by (auto simp add: acquire_for_create acquire_sync_create world_wf_def less_Suc_eq)
  next
    case c: False
    from assms True c show ?thesis
      by (auto simp add: acquire_for_wait acquire_sync_wait world_wf_def less_Suc_eq)
  qed
qed

lemma acquire_for_nextRequest [simp]: "nextRequest (acquire_for r w) = nextRequest w"
  by (cases "acquire_sync (pool w) (nextSocket w)" rule: prod.exhaust)
     (auto simp add: acquire_for_def split: acquire_step.splits)

lemma run_listeners_wf:
  "world_wf w \<Longrightarrow> \<forall>x \<in> set ls. snd x < nextRequest w \<Longrightarrow> world_wf (run_listeners ls w)"
proof (induction ls w rule: run_listeners.induct)
  case (1 w)
  then show ?case by simp
next
  case (2 t r ls w)
  let ?w = "w\<lparr>timers := without t (timers w)\<rparr>"
  from 2(2) set_without [of t "timers w"] have "world_wf ?w"
    by (auto simp add: world_wf_def)
  moreover from 2(3) have "r < nextRequest ?w" by simp
  ultimately have "world_wf (acquire_for r ?w)" by (rule acquire_for_wf)
  moreover from 2(3) have "\<forall>x \<in> set ls. snd x < nextRequest (acquire_for r ?w)" by simp
  ultimately show ?case using 2(1) by simp
qed

lemma map_of_in_set: "map_of xs k = Some v \<Longrightarrow> (k, v) \<in> set xs"
  by (rule map_of_SomeD)

lemma pool_step_wf:
  assumes "world_wf w"
  shows "world_wf (pool_step w e)"
proof (cases e)
  case Acquire
  let ?w = "w\<lparr>nextRequest := nextRequest w + 1\<rparr>"
  from assms have "world_wf ?w" by (auto simp add: world_wf_def less_Suc_eq)
  moreover have "nextRequest w < nextRequest ?w" by simp
  ultimately have "world_wf (acquire_for (nextRequest w) ?w)" by (rule acquire_for_wf)
  with Acquire show ?thesis by (simp add: pool_step_def)
next
  case (ConnectSucceeds s)
  show ?thesis
  proof (cases "map_of (connecting w) s")
    case None
    with ConnectSucceeds assms show ?thesis by (simp add: pool_step_def)
  next
    case (Some r)
    then have "(s, r) \<in> set (connecting w)" by (rule map_of_SomeD)
    with assms have r: "r < nextRequest w" by (auto simp add: world_wf_def)
    let ?w = "w\<lparr>connecting := without s (connecting w)\<rparr>"
    from assms set_without [of s "connecting w"] have "world_wf ?w"
      by (auto simp add: world_wf_def)
    moreover from r have "r < nextRequest ?w" by simp
    ultimately have "world_wf (settle r (Resolved s) ?w)" by (rule settle_wf)
    with ConnectSucceeds Some show ?thesis by (simp add: pool_step_def)
  qed
next
  case (ConnectFails s msg)
  show ?thesis
  proof (cases "map_of (connecting w) s")
    case None
    with ConnectFails assms show ?thesis by (simp add: pool_step_def)
  next
    case (Some r)
    then have "(s, r) \<in> set (connecting w)" by (rule map_of_SomeD)
    with assms have r: "r < nextRequest w" by (auto simp add: world_wf_def)
    let ?w = "w\<lparr>connecting := without s (connecting w), pool := connect_failed (pool w) s\<rparr>"
    from assms set_without [of s "connecting w"] have "world_wf ?w"
      by (auto simp add: world_wf_def connect_failed_def)
    moreover from r have "r < nextRequest ?w" by simp
    ultimately have "world_wf (settle r (Rejected (ConnectError msg)) ?w)" by (rule settle_wf)
    with ConnectFails Some show ?thesis by (simp add: pool_step_def)
  qed
next
  case (Release s st)
  show ?thesis
  proof (cases "s \<in> inUse (pool w)")
    case False
    with Release assms show ?thesis
      by (auto simp add: pool_step_def release_not_inUse world_wf_def)
  next
    case True
    show ?thesis
    proof (cases "isSocketHealthy st \<and> length (available (pool w)) < maxSockets (pool w)")
      case False
      with True Release assms show ?thesis
        by (auto simp add: pool_step_def release_inUse world_wf_def)
    next
      case h: True
      let ?p = "(pool w)\<lparr> releases := releases (pool w) + 1, inUse := inUse (pool w) - {s},
                  available := available (pool w) @ [s] \<rparr>"
      let ?w = "w\<lparr>pool := ?p, waiters := []\<rparr>"
      from assms True have "world_wf ?w" by (auto simp add: world_wf_def)
      moreover from assms have "\<forall>x \<in> set (waiters w). snd x < nextRequest ?w"
        by (auto simp add: world_wf_def)
      ultimately have "world_wf (run_listeners (waiters w) ?w)" by (rule run_listeners_wf)
      with True h Release show ?thesis
        by (simp add: pool_step_def release_inUse emit_socketReleased_def)
    qed
  qed
next
  case (TimeoutFires t)
  show ?thesis
  proof (cases "map_of (timers w) t")
    case None
    with TimeoutFires assms show ?thesis by (simp add: pool_step_def)
  next
    case (Some r)
    then have "(t, r) \<in> set (timers w)" by (rule map_of_SomeD)
    with assms have r: "r < nextRequest w" by (auto simp add: world_wf_def)
    let ?w = "w\<lparr>timers := without t (timers w), pool := timeout_fired (pool w)\<rparr>"
    from assms set_without [of t "timers w"] have "world_wf ?w"
      by (auto simp add: world_wf_def timeout_fired_def)
    moreover from r have "r < nextRequest ?w" by simp
    ultimately have "world_wf (settle r (Rejected TimeoutWaitingForSocket) ?w)" by (rule settle_wf)
    with TimeoutFires Some show ?thesis by (simp add: pool_step_def)
  qed
qed

lemma pool_run_snoc: "pool_run w (es @ [e]) = pool_step (pool_run w es) e"
  by (simp add: pool_run_def)

lemma pool_run_wf: "world_wf w \<Longrightarrow> world_wf (pool_run w es)"
  by (induction es rule: rev_induct) (simp_all add: pool_run_def pool_step_wf)

lemma new_world_wf: "world_wf (new_world N)"
  by (simp add: world_wf_def new_world_def new_pool_def)

subsection \<open>A request that waits\<close>

lemma acquire_for_results_other:
  "r' \<noteq> r \<Longrightarrow> results (acquire_for r' w) r = results w r"
  by (cases "acquire_sync (pool w) (nextSocket w)" rule: prod.exhaust)
     (auto simp add: acquire_for_def results_settle split: acquire_step.splits)

lemma acquire_for_connecting:
  "snd ` set (connecting (acquire_for r' w)) \<subseteq> insert r' (snd ` set (connecting w))"
  by (cases "acquire_sync (pool w) (nextSocket w)" rule: prod.exhaust)
     (auto simp add: acquire_for_def split: acquire_step.splits)

lemma not_in_without:
  "r \<notin> snd ` set xs \<Longrightarrow> r \<notin> snd ` set (without k xs)"
  using set_without [of k xs] by auto

lemma waiting_step:
  assumes lt: "r < nextRequest w"
    and nc: "r \<notin> snd ` set (connecting w)"
    and nr: "\<not> is_Release e"
  shows "r < nextRequest (pool_step w e) \<and>
         r \<notin> snd ` set (connecting (pool_step w e)) \<and>
         (results (pool_step w e) r = results w r \<or>
          results w r = None \<and>
          results (pool_step w e) r = Some (Rejected TimeoutWaitingForSocket) \<and>
          (\<exists>t. e = TimeoutFires t))"
proof (cases e)
  case Acquire
  let ?w = "w\<lparr>nextRequest := nextRequest w + 1\<rparr>"
  from lt have ne: "nextRequest w \<noteq> r" by simp
  have st: "pool_step w e = acquire_for (nextRequest w) ?w"
    using Acquire by (simp add: pool_step_def)
  have "results (acquire_for (nextRequest w) ?w) r = results w r"
    using acquire_for_results_other [OF ne, of ?w] by simp
  moreover have "r \<notin> snd ` set (connecting (acquire_for (nextRequest w) ?w))"
    using acquire_for_connecting [of "nextRequest w" ?w] nc ne by auto
  moreover have "r < nextRequest (acquire_for (nextRequest w) ?w)"
    using lt by simp
  ultimately show ?thesis unfolding st by simp
next
  case (ConnectSucceeds s)
  show ?thesis
  proof (cases "map_of (connecting w) s")
    case None
    with ConnectSucceeds have "pool_step w e = w" by (simp add: pool_step_def)
    with lt nc show ?thesis by simp
  next
    case (Some r')
    then have "(s, r') \<in> set (connecting w)" by (rule map_of_SomeD)
    with nc have ne: "r' \<noteq> r" by force
    have st: "pool_step w e =
                settle r' (Resolved s) (w\<lparr>connecting := without s (connecting w)\<rparr>)"
      using ConnectSucceeds Some by (simp add: pool_step_def)
    show ?thesis
      unfolding st using ne lt not_in_without [OF nc, of s]
      by (simp add: results_settle)
  qed
next
  case (ConnectFails s msg)
  show ?thesis
  proof (cases "map_of (connecting w) s")
    case None
    with ConnectFails have "pool_step w e = w" by (simp add: pool_step_def)
    with lt nc show ?thesis by simp
  next
    case (Some r')
    then have "(s, r') \<in> set (connecting w)" by (rule map_of_SomeD)
    with nc have ne: "r' \<noteq> r" by force
    have st: "pool_step w e =
                settle r' (Rejected (ConnectError msg))
                  (w\<lparr>connecting := without s (connecting w),
                      pool := connect_failed (pool w) s\<rparr>)"
      using ConnectFails Some by (simp add: pool_step_def)
    show ?thesis
      unfolding st using ne lt not_in_without [OF nc, of s]
      by (simp add: results_settle)
  qed
next
  case (Release s st)
  with nr show ?thesis by (simp add: is_Release_def)
next
  case (TimeoutFires t)
  show ?thesis
  proof (cases "map_of (timers w) t")
    case None
    with TimeoutFires have "pool_step w e = w" by (simp add: pool_step_def)
    with lt nc show ?thesis by simp
  next
    case (Some r')
    have st: "pool_step w e =
                settle r' (Rejected TimeoutWaitingForSocket)
                  (w\<lparr>timers := without t (timers w), pool := timeout_fired (pool w)\<rparr>)"
      using TimeoutFires Some by (simp add: pool_step_def)
    show ?thesis
      unfolding st using lt nc TimeoutFires
      by (simp add: results_settle)
  qed
qed

lemma waiting_run:
  assumes lt: "r < nextRequest w"
    and nc: "r \<notin> snd ` set (connecting w)"
    and nr: "\<forall>e \<in> set es. \<not> is_Release e"
  shows "r < nextRequest (pool_run w es) \<and>
         r \<notin> snd ` set (connecting (pool_run w es)) \<and>
         (results (pool_run w es) r = results w r \<or>
          results w r = None \<and>
          results (pool_run w es) r = Some (Rejected TimeoutWaitingForSocket) \<and>
          (\<exists>t. TimeoutFires t \<in> set es))"
  using nr
proof (induction es rule: rev_induct)
  case Nil
  from lt nc show ?case by (simp add: pool_run_def)
next
  case (snoc e es)
  let ?w = "pool_run w es"
  from snoc have ih: "r < nextRequest ?w" "r \<notin> snd ` set (connecting ?w)"
    "results ?w r = results w r \<or>
     results w r = None \<and> results ?w r = Some (Rejected TimeoutWaitingForSocket) \<and>
     (\<exists>t. TimeoutFires t \<in> set es)"
    by simp_all
  from snoc have e: "\<not> is_Release e" by simp
  from waiting_step [OF ih(1) ih(2) e] ih(3) show ?case
    unfolding pool_run_snoc by auto
qed

lemma acquires_fill:
  "k \<le> N \<Longrightarrow>
   inUse (pool (pool_run (new_world N) (replicate k Acquire))) = {..<k} \<and>
   available (pool (pool_run (new_world N) (replicate k Acquire))) = [] \<and>
   nextSocket (pool_run (new_world N) (replicate k Acquire)) = k"
proof (induction k)
  case 0
  show ?case by (simp add: pool_run_def new_world_def new_pool_def)
next
  case (Suc k)
  let ?w = "pool_run (new_world N) (replicate k Acquire)"
  let ?w' = "?w\<lparr>nextRequest := nextRequest ?w + 1\<rparr>"
  from Suc have ih: "inUse (pool ?w) = {..<k}" "available (pool ?w) = []" "nextSocket ?w = k"
    by simp_all
  have m: "maxSockets (pool ?w) = N"
    using pool_run_ok [of "new_world N" "replicate k Acquire"] new_world_ok [of N] by simp
  have r: "replicate (Suc k) Acquire = replicate k Acquire @ [Acquire]"
    by (simp add: replicate_append_same)
  have c: "card (inUse (pool ?w')) < maxSockets (pool ?w')"
    using ih m Suc.prems by simp
  have a: "available (pool ?w') = []" using ih by simp
  have "pool_run (new_world N) (replicate (Suc k) Acquire) = acquire_for (nextRequest ?w) ?w'"
    unfolding r pool_run_snoc by (simp add: pool_step_def)
  then have "pool_run (new_world N) (replicate (Suc k) Acquire) =
      ?w'\<lparr> pool := snd (acquire_sync (pool ?w') (nextSocket ?w')),
           nextSocket := nextSocket ?w' + 1,
           connecting := connecting ?w' @ [(nextSocket ?w', nextRequest ?w)] \<rparr>"
    by (simp only: acquire_for_create [OF a c])
  moreover have c2: "card (inUse (pool ?w)) < maxSockets (pool ?w)"
    using c by simp
  ultimately show ?case
    using ih by (simp add: acquire_sync_create [OF ih(2) c2] lessThan_Suc)
qed



lemma without_fresh: "k \<notin> fst ` set xs \<Longrightarrow> without k (xs @ [(k, v)]) = xs"
  by (induction xs) (auto simp add: without_def)

lemma map_of_snoc_fresh: "k \<notin> fst ` set xs \<Longrightarrow> map_of (xs @ [(k, v)]) k = Some v"
  by (induction xs) auto

lemma wait_then_timeout:
  assumes wf: "world_wf w"
    and av: "available (pool w) = []"
    and full: "\<not> card (inUse (pool w)) < maxSockets (pool w)"
  shows "inUse (pool (pool_step w Acquire)) = inUse (pool w) \<and>
         results (pool_step w Acquire) (nextRequest w) = None \<and>
         (nextTimer w, nextRequest w) \<in> set (timers (pool_step w Acquire)) \<and>
         (nextTimer w, nextRequest w) \<in> set (waiters (pool_step w Acquire)) \<and>
         nextRequest w < nextRequest (pool_step w Acquire) \<and>
         nextRequest w \<notin> snd ` set (connecting (pool_step w Acquire)) \<and>
         results (pool_step (pool_step w Acquire) (TimeoutFires (nextTimer w))) (nextRequest w) =
           Some (Rejected TimeoutWaitingForSocket) \<and>
         timeouts (pool (pool_step (pool_step w Acquire) (TimeoutFires (nextTimer w)))) =
           timeouts (pool w) + 1"
proof -
  let ?w = "w\<lparr>nextRequest := nextRequest w + 1\<rparr>"
  have av': "available (pool ?w) = []" using av by simp
  have full': "\<not> card (inUse (pool ?w)) < maxSockets (pool ?w)" using full by simp
  have st: "pool_step w Acquire =
     ?w\<lparr> pool := (pool w)\<lparr>acquisitions := acquisitions (pool w) + 1\<rparr>,
          nextTimer := nextTimer w + 1,
          timers := timers w @ [(nextTimer w, nextRequest w)],
          waiters := waiters w @ [(nextTimer w, nextRequest w)] \<rparr>"
    using acquire_for_wait [OF av' full', of "nextRequest w"]
    by (simp add: pool_step_def acquire_sync_wait [OF av full])
  from wf have none: "results w (nextRequest w) = None"
    by (simp add: world_wf_def)
  from wf have nc: "nextRequest w \<notin> snd ` set (connecting w)"
    by (auto simp add: world_wf_def)
  from wf have "nextTimer w \<notin> fst ` set (timers w)"
    by (auto simp add: world_wf_def)
  then have m: "map_of (timers w @ [(nextTimer w, nextRequest w)]) (nextTimer w) =
                  Some (nextRequest w)"
    by (rule map_of_snoc_fresh)
  show ?thesis
    unfolding st using none nc m
    by (simp add: pool_step_def results_settle timeout_fired_def)
qed

subsection \<open>Concrete runs\<close>

text \<open>The equations that evaluate a run of the pool on given events.\<close>

lemmas pool_eval =
  pool_run_def pool_step_def acquire_for_def acquire_sync_def release_def settle_def
  new_world_def new_pool_def Let_def without_def emit_socketReleased_def
  connect_failed_def timeout_fired_def create_three_def release_three_def acquire_three_def

lemma healthy_sock_healthy: "isSocketHealthy healthy_sock"
  by (simp add: isSocketHealthy_def hasActiveHandle_def healthy_sock_def)

subsection \<open>The claims about the pool\<close>

text \<open>
  C1. However acquire and release calls and their completions follow one another on a
  pool of size \<open>N\<close>, the sockets tracked as in use never number more than \<open>N\<close>. After
  \<open>N\<close> acquisitions with no release nothing is available and \<open>N\<close> sockets are in use.
  An \<^verbatim>\<open>acquire\<close> issued on such an exhausted pool adds nothing to the sockets in use: its
  promise stays pending, with a timer running and a listener for \<^verbatim>\<open>socketReleased\<close>
  registered. When that timer (5000 ms in the code) fires, the promise is rejected with
  the timeout error and the timeout counter goes up by one. As long as no release
  happens, the promise is pending or rejected with the timeout error, the latter only
  after a timer has fired; so it is resolved with a socket only after a release.
\<close>

theorem inUse_never_exceeds_maxSockets:
  "card (inUse (pool (pool_run (new_world N) es))) \<le> N \<and>
   available (pool (pool_run (new_world N) (replicate N Acquire))) = [] \<and>
   card (inUse (pool (pool_run (new_world N) (replicate N Acquire)))) = N \<and>
   (let w = pool_run (new_world N) es; r = nextRequest w; t = nextTimer w;
        w1 = pool_step w Acquire
    in available (pool w) = [] \<and> N \<le> card (inUse (pool w)) \<longrightarrow>
         inUse (pool w1) = inUse (pool w) \<and>
         results w1 r = None \<and>
         (t, r) \<in> set (timers w1) \<and> (t, r) \<in> set (waiters w1) \<and>
         results (pool_step w1 (TimeoutFires t)) r = Some (Rejected TimeoutWaitingForSocket) \<and>
         timeouts (pool (pool_step w1 (TimeoutFires t))) = timeouts (pool w) + 1 \<and>
         (\<forall>es'. (\<forall>e \<in> set es'. \<not> is_Release e) \<longrightarrow>
            results (pool_run w1 es') r = None \<or>
            results (pool_run w1 es') r = Some (Rejected TimeoutWaitingForSocket) \<and>
            (\<exists>t'. TimeoutFires t' \<in> set es')))"
proof -
  let ?w = "pool_run (new_world N) es"
  have bound: "card (inUse (pool ?w)) \<le> N" by (rule inUse_bounded)
  have fill: "available (pool (pool_run (new_world N) (replicate N Acquire))) = [] \<and>
              card (inUse (pool (pool_run (new_world N) (replicate N Acquire)))) = N"
    using acquires_fill [of N N] by simp
  have wf: "world_wf ?w" using new_world_wf by (rule pool_run_wf)
  have mx: "maxSockets (pool ?w) = N"
    using pool_run_ok [of "new_world N" es] new_world_ok [of N] by simp
  have blocked: "inUse (pool (pool_step ?w Acquire)) = inUse (pool ?w) \<and>
         results (pool_step ?w Acquire) (nextRequest ?w) = None \<and>
         (nextTimer ?w, nextRequest ?w) \<in> set (timers (pool_step ?w Acquire)) \<and>
         (nextTimer ?w, nextRequest ?w) \<in> set (waiters (pool_step ?w Acquire)) \<and>
         results (pool_step (pool_step ?w Acquire) (TimeoutFires (nextTimer ?w))) (nextRequest ?w) =
           Some (Rejected TimeoutWaitingForSocket) \<and>
         timeouts (pool (pool_step (pool_step ?w Acquire) (TimeoutFires (nextTimer ?w)))) =
           timeouts (pool ?w) + 1 \<and>
         (\<forall>es'. (\<forall>e \<in> set es'. \<not> is_Release e) \<longrightarrow>
            results (pool_run (pool_step ?w Acquire) es') (nextRequest ?w) = None \<or>
            results (pool_run (pool_step ?w Acquire) es') (nextRequest ?w) =
              Some (Rejected TimeoutWaitingForSocket) \<and>
            (\<exists>t'. TimeoutFires t' \<in> set es'))"
    if av: "available (pool ?w) = []" and full: "N \<le> card (inUse (pool ?w))"
  proof -
    from full mx have nf: "\<not> card (inUse (pool ?w)) < maxSockets (pool ?w)" by simp
    note wt = wait_then_timeout [OF wf av nf]
    have later: "results (pool_run (pool_step ?w Acquire) es') (nextRequest ?w) = None \<or>
            results (pool_run (pool_step ?w Acquire) es') (nextRequest ?w) =
              Some (Rejected TimeoutWaitingForSocket) \<and>
            (\<exists>t'. TimeoutFires t' \<in> set es')"
      if nr: "\<forall>e \<in> set es'. \<not> is_Release e" for es'
    proof -
      from wt have lt: "nextRequest ?w < nextRequest (pool_step ?w Acquire)"
        and nc: "nextRequest ?w \<notin> snd ` set (connecting (pool_step ?w Acquire))"
        and none: "results (pool_step ?w Acquire) (nextRequest ?w) = None"
        by simp_all
      from waiting_run [OF lt nc nr] none show ?thesis by auto
    qed
    from wt later show ?thesis by simp
  qed
  show ?thesis
    unfolding Let_def using bound fill blocked by blast
qed

text \<open>
  On a pool of size 1 whose only socket is in use, the second request waits, and is
  rejected with the timeout error when its timer fires.
\<close>

theorem inUse_never_exceeds_maxSockets_witness:
  "available (pool (pool_run (new_world 1) [Acquire, ConnectSucceeds 0])) = [] \<and>
   1 \<le> card (inUse (pool (pool_run (new_world 1) [Acquire, ConnectSucceeds 0]))) \<and>
   results (pool_step (pool_run (new_world 1) [Acquire, ConnectSucceeds 0]) Acquire) 1 = None \<and>
   \<not> is_Release (TimeoutFires 0) \<and>
   results (pool_run (pool_step (pool_run (new_world 1) [Acquire, ConnectSucceeds 0]) Acquire)
             [TimeoutFires 0]) 1 = Some (Rejected TimeoutWaitingForSocket)"
proof -
  have av: "available (pool (pool_run (new_world 1) [Acquire, ConnectSucceeds 0])) = []"
    by (simp add: pool_eval)
  have full: "1 \<le> card (inUse (pool (pool_run (new_world 1) [Acquire, ConnectSucceeds 0])))"
    by (simp add: pool_eval)
  have r: "nextRequest (pool_run (new_world 1) [Acquire, ConnectSucceeds 0]) = 1"
    by (simp add: pool_eval)
  have t: "nextTimer (pool_run (new_world 1) [Acquire, ConnectSucceeds 0]) = 0"
    by (simp add: pool_eval)
  have nr: "\<not> is_Release (TimeoutFires 0)" by (simp add: is_Release_def)
  have run: "pool_run w [TimeoutFires 0] = pool_step w (TimeoutFires 0)" for w
    by (simp add: pool_run_def)
  from inUse_never_exceeds_maxSockets [of 1 "[Acquire, ConnectSucceeds 0]"] av full
  show ?thesis
    unfolding Let_def r t run using nr by simp
qed

text \<open>
  C5. When a socket is available, \<^verbatim>\<open>acquire\<close> takes the last one of \<^verbatim>\<open>available\<close>, puts
  it in use, increments that socket's reuse count and the pool's reuse counter, and
  returns it; no socket is created and no connection is awaited. The last socket of
  \<^verbatim>\<open>available\<close> is the one released most recently: a healthy socket released from use
  is the one the next \<^verbatim>\<open>acquire\<close> returns. On a pool of size 3, three acquisitions create
  three sockets; after all three are released, three more acquisitions reuse them, last
  released first, and the counters stand at 3 reused and 3 created.
\<close>

theorem acquire_reuses_last_released:
  "(available p \<noteq> [] \<longrightarrow>
      acquire_sync p fresh =
        (Reused (last (available p)),
         p\<lparr> acquisitions := acquisitions p + 1,
            available := butlast (available p),
            inUse := insert (last (available p)) (inUse p),
            reuseCount := (reuseCount p)
              (last (available p) := reuseCount p (last (available p)) + 1),
            totalReused := totalReused p + 1 \<rparr>)) \<and>
   (s \<in> inUse p \<and> isSocketHealthy st \<and> length (available p) < maxSockets p \<longrightarrow>
      available (snd (release p s st)) = available p @ [s] \<and>
      fst (acquire_sync (snd (release p s st)) fresh) = Reused s) \<and>
   (available (pool w) \<noteq> [] \<longrightarrow>
      nextSocket (pool_step w Acquire) = nextSocket w \<and>
      connecting (pool_step w Acquire) = connecting w \<and>
      totalCreated (pool (pool_step w Acquire)) = totalCreated (pool w) \<and>
      (results w (nextRequest w) = None \<longrightarrow>
         results (pool_step w Acquire) (nextRequest w) =
           Some (Resolved (last (available (pool w)))))) \<and>
   (isSocketHealthy st \<longrightarrow>
      totalCreated (pool (pool_run (new_world 3) create_three)) = 3 \<and>
      totalReused (pool (pool_run (new_world 3) create_three)) = 0 \<and>
      available (pool (pool_run (new_world 3) (create_three @ release_three st))) = [0, 1, 2] \<and>
      totalReused (pool (pool_run (new_world 3)
        (create_three @ release_three st @ acquire_three))) = 3 \<and>
      totalCreated (pool (pool_run (new_world 3)
        (create_three @ release_three st @ acquire_three))) = 3 \<and>
      results (pool_run (new_world 3) (create_three @ release_three st @ acquire_three)) 3 =
        Some (Resolved 2) \<and>
      results (pool_run (new_world 3) (create_three @ release_three st @ acquire_three)) 4 =
        Some (Resolved 1) \<and>
      results (pool_run (new_world 3) (create_three @ release_three st @ acquire_three)) 5 =
        Some (Resolved 0))"
proof -
  have a: "available p \<noteq> [] \<Longrightarrow>
      acquire_sync p fresh =
        (Reused (last (available p)),
         p\<lparr> acquisitions := acquisitions p + 1,
            available := butlast (available p),
            inUse := insert (last (available p)) (inUse p),
            reuseCount := (reuseCount p)
              (last (available p) := reuseCount p (last (available p)) + 1),
            totalReused := totalReused p + 1 \<rparr>)"
    by (rule acquire_sync_reuse)
  have b: "s \<in> inUse p \<and> isSocketHealthy st \<and> length (available p) < maxSockets p \<Longrightarrow>
      available (snd (release p s st)) = available p @ [s] \<and>
      fst (acquire_sync (snd (release p s st)) fresh) = Reused s"
    by (simp add: release_inUse acquire_sync_reuse)
  have c: "available (pool w) \<noteq> [] \<Longrightarrow>
      nextSocket (pool_step w Acquire) = nextSocket w \<and>
      connecting (pool_step w Acquire) = connecting w \<and>
      totalCreated (pool (pool_step w Acquire)) = totalCreated (pool w) \<and>
      (results w (nextRequest w) = None \<longrightarrow>
         results (pool_step w Acquire) (nextRequest w) =
           Some (Resolved (last (available (pool w)))))"
    by (simp add: pool_step_def acquire_for_def acquire_sync_reuse results_settle)
  have d1: "totalCreated (pool (pool_run (new_world 3) create_three)) = 3"
    by (simp add: pool_eval)
  have d2: "totalReused (pool (pool_run (new_world 3) create_three)) = 0"
    by (simp add: pool_eval)
  have d3: "available (pool (pool_run (new_world 3) (create_three @ release_three st))) = [0, 1, 2]"
    if "isSocketHealthy st"
    using that by (simp add: pool_eval)
  have d4: "totalReused (pool (pool_run (new_world 3)
        (create_three @ release_three st @ acquire_three))) = 3" if "isSocketHealthy st"
    using that by (simp add: pool_eval)
  have d5: "totalCreated (pool (pool_run (new_world 3)
        (create_three @ release_three st @ acquire_three))) = 3" if "isSocketHealthy st"
    using that by (simp add: pool_eval)
  have d6: "results (pool_run (new_world 3) (create_three @ release_three st @ acquire_three)) 3 =
        Some (Resolved 2)" if "isSocketHealthy st"
    using that by (simp add: pool_eval)
  have d7: "results (pool_run (new_world 3) (create_three @ release_three st @ acquire_three)) 4 =
        Some (Resolved 1)" if "isSocketHealthy st"
    using that by (simp add: pool_eval)
  have d8: "results (pool_run (new_world 3) (create_three @ release_three st @ acquire_three)) 5 =
        Some (Resolved 0)" if "isSocketHealthy st"
    using that by (simp add: pool_eval)
  from a b c d1 d2 d3 d4 d5 d6 d7 d8 show ?thesis by blast
qed

theorem acquire_reuses_last_released_witness:
  "available (pool (pool_run (new_world 3) (create_three @ release_three healthy_sock))) \<noteq> [] \<and>
   isSocketHealthy healthy_sock \<and>
   fst (acquire_sync (pool (pool_run (new_world 3) (create_three @ release_three healthy_sock))) 3)
     = Reused 2 \<and>
   2 \<in> inUse (pool (pool_run (new_world 3) create_three)) \<and>
   length (available (pool (pool_run (new_world 3) create_three))) <
     maxSockets (pool (pool_run (new_world 3) create_three)) \<and>
   fst (acquire_sync (snd (release (pool (pool_run (new_world 3) create_three)) 2 healthy_sock)) 3)
     = Reused 2 \<and>
   results (pool_run (new_world 3) (create_three @ release_three healthy_sock)) 3 = None \<and>
   results (pool_step (pool_run (new_world 3) (create_three @ release_three healthy_sock))
              Acquire) 3 = Some (Resolved 2) \<and>
   totalReused (pool (pool_run (new_world 3)
     (create_three @ release_three healthy_sock @ acquire_three))) = 3 \<and>
   totalCreated (pool (pool_run (new_world 3)
     (create_three @ release_three healthy_sock @ acquire_three))) = 3"
proof -
  let ?w3 = "pool_run (new_world 3) create_three"
  let ?w6 = "pool_run (new_world 3) (create_three @ release_three healthy_sock)"
  have av: "available (pool ?w6) = [0, 1, 2]"
    using healthy_sock_healthy by (simp add: pool_eval)
  have nr: "nextRequest ?w6 = 3"
    using healthy_sock_healthy by (simp add: pool_eval)
  have rs: "results ?w6 3 = None"
    using healthy_sock_healthy by (simp add: pool_eval)
  have iu: "2 \<in> inUse (pool ?w3)"
    by (simp add: pool_eval)
  have av3: "available (pool ?w3) = []"
    by (simp add: pool_eval)
  have mx: "maxSockets (pool ?w3) = 3"
    by (simp add: pool_eval)
  from acquire_reuses_last_released [of "pool ?w6" 3 2 healthy_sock ?w6]
    acquire_reuses_last_released [of "pool ?w3" 3 2 healthy_sock ?w6]
    healthy_sock_healthy
  show ?thesis
    by (simp add: av nr rs iu av3 mx)
qed

text \<open>
  C6. Releasing a socket that is not tracked as in use is answered with the warning
  \<^verbatim>\<open>Releasing socket ... that wasn't in use\<close>, and nothing but the counter of releases
  changes: the available sockets and the sockets in use are as before, and no waiting
  \<^verbatim>\<open>acquire\<close> is woken.
\<close>

theorem foreign_release_warns_and_keeps_sets:
  "s \<notin> inUse (pool w) \<longrightarrow>
     release (pool w) s st = (WarnNotInUse s, (pool w)\<lparr>releases := releases (pool w) + 1\<rparr>) \<and>
     available (snd (release (pool w) s st)) = available (pool w) \<and>
     inUse (snd (release (pool w) s st)) = inUse (pool w) \<and>
     pool_step w (Release s st) = w\<lparr>pool := (pool w)\<lparr>releases := releases (pool w) + 1\<rparr>\<rparr>"
  by (simp add: release_not_inUse pool_step_def)


theorem foreign_release_warns_and_keeps_sets_witness:
  "7 \<notin> inUse (pool (pool_run (new_world 3) create_three)) \<and>
   fst (release (pool (pool_run (new_world 3) create_three)) 7 healthy_sock) = WarnNotInUse 7 \<and>
   inUse (snd (release (pool (pool_run (new_world 3) create_three)) 7 healthy_sock)) =
     inUse (pool (pool_run (new_world 3) create_three))"
proof -
  have "7 \<notin> inUse (pool (pool_run (new_world 3) create_three))"
    by (simp add: pool_eval)
  with foreign_release_warns_and_keeps_sets [of 7 "pool_run (new_world 3) create_three" healthy_sock]
  show ?thesis by simp
qed

lemma connect_fails_step:
  assumes m: "map_of (connecting w) s = Some r"
  shows "pool_step w (ConnectFails s msg) =
           settle r (Rejected (ConnectError msg))
             (w\<lparr> connecting := without s (connecting w),
                 pool := connect_failed (pool w) s \<rparr>)"
  using m by (simp add: pool_step_def)

lemma map_of_without: "map_of (without k xs) k = None"
  by (induction xs) (auto simp add: without_def)

text \<open>
  C7. When the connection of a socket that \<^verbatim>\<open>acquire\<close> has reserved fails, the socket is
  taken out of the sockets in use, the failure counter goes up by one and the promise of
  the request, if still pending, is rejected with the transport's error; no new socket
  is made and \<^verbatim>\<open>acquire\<close> is not called again. When the failure follows directly on an
  \<^verbatim>\<open>acquire\<close> that found nothing available and room in the pool, the sockets in use are
  again exactly what they were before that \<^verbatim>\<open>acquire\<close>, and the request is rejected with
  the error.
\<close>

theorem connect_failure_frees_reservation:
  "(map_of (connecting w0) s0 = Some r0 \<longrightarrow>
      inUse (pool (pool_step w0 (ConnectFails s0 msg))) = inUse (pool w0) - {s0} \<and>
      failures (pool (pool_step w0 (ConnectFails s0 msg))) = failures (pool w0) + 1 \<and>
      (results w0 r0 = None \<longrightarrow>
         results (pool_step w0 (ConnectFails s0 msg)) r0 = Some (Rejected (ConnectError msg))) \<and>
      map_of (connecting (pool_step w0 (ConnectFails s0 msg))) s0 = None \<and>
      nextSocket (pool_step w0 (ConnectFails s0 msg)) = nextSocket w0 \<and>
      acquisitions (pool (pool_step w0 (ConnectFails s0 msg))) = acquisitions (pool w0)) \<and>
   (let w = pool_run (new_world N) es; s = nextSocket w; r = nextRequest w;
        w1 = pool_step w Acquire; w2 = pool_step w1 (ConnectFails s msg)
    in available (pool w) = [] \<and> card (inUse (pool w)) < N \<longrightarrow>
         s \<notin> inUse (pool w) \<and>
         inUse (pool w1) = insert s (inUse (pool w)) \<and>
         map_of (connecting w1) s = Some r \<and>
         inUse (pool w2) = inUse (pool w) \<and>
         failures (pool w2) = failures (pool w) + 1 \<and>
         results w2 r = Some (Rejected (ConnectError msg)) \<and>
         connecting w2 = connecting w \<and>
         waiters w2 = waiters w \<and>
         timers w2 = timers w \<and>
         nextSocket w2 = nextSocket w1 \<and>
         acquisitions (pool w2) = acquisitions (pool w1))"
proof -
  have gen: "inUse (pool (pool_step w0 (ConnectFails s0 msg))) = inUse (pool w0) - {s0} \<and>
      failures (pool (pool_step w0 (ConnectFails s0 msg))) = failures (pool w0) + 1 \<and>
      (results w0 r0 = None \<longrightarrow>
         results (pool_step w0 (ConnectFails s0 msg)) r0 = Some (Rejected (ConnectError msg))) \<and>
      map_of (connecting (pool_step w0 (ConnectFails s0 msg))) s0 = None \<and>
      nextSocket (pool_step w0 (ConnectFails s0 msg)) = nextSocket w0 \<and>
      acquisitions (pool (pool_step w0 (ConnectFails s0 msg))) = acquisitions (pool w0)"
    if m: "map_of (connecting w0) s0 = Some r0"
    unfolding connect_fails_step [OF m]
    by (simp add: results_settle connect_failed_def map_of_without)
  let ?w = "pool_run (new_world N) es"
  let ?s = "nextSocket ?w"
  let ?r = "nextRequest ?w"
  let ?w1 = "pool_step ?w Acquire"
  let ?w2 = "pool_step ?w1 (ConnectFails ?s msg)"
  have wf: "world_wf ?w" using new_world_wf by (rule pool_run_wf)
  have mx: "maxSockets (pool ?w) = N"
    using pool_run_ok [of "new_world N" es] new_world_ok [of N] by simp
  have atomic: "?s \<notin> inUse (pool ?w) \<and>
         inUse (pool ?w1) = insert ?s (inUse (pool ?w)) \<and>
         map_of (connecting ?w1) ?s = Some ?r \<and>
         inUse (pool ?w2) = inUse (pool ?w) \<and>
         failures (pool ?w2) = failures (pool ?w) + 1 \<and>
         results ?w2 ?r = Some (Rejected (ConnectError msg)) \<and>
         connecting ?w2 = connecting ?w \<and>
         waiters ?w2 = waiters ?w \<and>
         timers ?w2 = timers ?w \<and>
         nextSocket ?w2 = nextSocket ?w1 \<and>
         acquisitions (pool ?w2) = acquisitions (pool ?w1)"
    if av: "available (pool ?w) = []" and room: "card (inUse (pool ?w)) < N"
  proof -
    let ?v = "?w\<lparr>nextRequest := nextRequest ?w + 1\<rparr>"
    from room mx have c: "card (inUse (pool ?w)) < maxSockets (pool ?w)" by simp
    have av': "available (pool ?v) = []" using av by simp
    have c': "card (inUse (pool ?v)) < maxSockets (pool ?v)" using c by simp
    have w1: "?w1 =
       ?v\<lparr> pool := (pool ?w)\<lparr> acquisitions := acquisitions (pool ?w) + 1,
                              inUse := insert ?s (inUse (pool ?w)),
                              totalCreated := totalCreated (pool ?w) + 1 \<rparr>,
            nextSocket := ?s + 1,
            connecting := connecting ?w @ [(?s, ?r)] \<rparr>"
      using acquire_for_create [OF av' c', of ?r]
      by (simp add: pool_step_def acquire_sync_create [OF av c])
    from wf have fresh: "?s \<notin> inUse (pool ?w)" by (auto simp add: world_wf_def)
    from wf have nf: "?s \<notin> fst ` set (connecting ?w)" by (auto simp add: world_wf_def)
    from wf have none: "results ?w ?r = None" by (simp add: world_wf_def)
    have m: "map_of (connecting ?w1) ?s = Some ?r"
      unfolding w1 using map_of_snoc_fresh [OF nf] by simp
    have wo: "without ?s (connecting ?w @ [(?s, ?r)]) = connecting ?w"
      using nf by (rule without_fresh)
    have w2: "?w2 = settle ?r (Rejected (ConnectError msg))
             (?w1\<lparr> connecting := without ?s (connecting ?w1),
                   pool := connect_failed (pool ?w1) ?s \<rparr>)"
      using m by (rule connect_fails_step)
    have "inUse (pool ?w1) = insert ?s (inUse (pool ?w))" unfolding w1 by simp
    moreover have "inUse (pool ?w2) = inUse (pool ?w)"
      unfolding w2 unfolding w1 using fresh by (simp add: connect_failed_def)
    moreover have "failures (pool ?w2) = failures (pool ?w) + 1"
      unfolding w2 unfolding w1 by (simp add: connect_failed_def)
    moreover have "results ?w2 ?r = Some (Rejected (ConnectError msg))"
      unfolding w2 unfolding w1 using none by (simp add: results_settle)
    moreover have "connecting ?w2 = connecting ?w"
      unfolding w2 unfolding w1 using wo by simp
    moreover have "waiters ?w2 = waiters ?w \<and> timers ?w2 = timers ?w"
      unfolding w2 unfolding w1 by simp
    moreover have "nextSocket ?w2 = nextSocket ?w1"
      unfolding w2 by simp
    moreover have "acquisitions (pool ?w2) = acquisitions (pool ?w1)"
      unfolding w2 by (simp add: connect_failed_def)
    ultimately show ?thesis using fresh m by simp
  qed
  show ?thesis
    unfolding Let_def using gen atomic by blast
qed

theorem connect_failure_frees_reservation_witness:
  "available (pool (pool_run (new_world 2) [Acquire, ConnectSucceeds 0])) = [] \<and>
   card (inUse (pool (pool_run (new_world 2) [Acquire, ConnectSucceeds 0]))) < 2 \<and>
   inUse (pool (pool_run (new_world 2) [Acquire, ConnectSucceeds 0])) = {0} \<and>
   inUse (pool (pool_run (new_world 2) [Acquire, ConnectSucceeds 0, Acquire])) = {1, 0} \<and>
   map_of (connecting (pool_run (new_world 2) [Acquire, ConnectSucceeds 0, Acquire])) 1 = Some 1 \<and>
   results (pool_run (new_world 2) [Acquire, ConnectSucceeds 0, Acquire]) 1 = None \<and>
   inUse (pool (pool_run (new_world 2)
      [Acquire, ConnectSucceeds 0, Acquire, ConnectFails 1 ''ECONNREFUSED''])) = {0} \<and>
   failures (pool (pool_run (new_world 2)
      [Acquire, ConnectSucceeds 0, Acquire, ConnectFails 1 ''ECONNREFUSED''])) = 1 \<and>
   results (pool_run (new_world 2)
      [Acquire, ConnectSucceeds 0, Acquire, ConnectFails 1 ''ECONNREFUSED'']) 1 =
     Some (Rejected (ConnectError ''ECONNREFUSED''))"
proof -
  let ?w = "pool_run (new_world 2) [Acquire, ConnectSucceeds 0]"
  let ?w1 = "pool_run (new_world 2) [Acquire, ConnectSucceeds 0, Acquire]"
  have av: "available (pool ?w) = []" by (simp add: pool_eval)
  have iu: "inUse (pool ?w) = {0}" by (simp add: pool_eval)
  have s: "nextSocket ?w = 1" by (simp add: pool_eval)
  have r: "nextRequest ?w = 1" by (simp add: pool_eval)
  have f: "failures (pool ?w) = 0" by (simp add: pool_eval)
  have m1: "map_of (connecting ?w1) 1 = Some 1" by (simp add: pool_eval)
  have rs1: "results ?w1 1 = None" by (simp add: pool_eval)
  have r1: "pool_step ?w Acquire = ?w1"
    by (simp add: pool_run_def)
  have r2: "pool_step ?w1 (ConnectFails 1 ''ECONNREFUSED'') =
            pool_run (new_world 2)
              [Acquire, ConnectSucceeds 0, Acquire, ConnectFails 1 ''ECONNREFUSED'']"
    by (simp add: pool_run_def)
  from connect_failure_frees_reservation
         [of ?w1 1 1 "''ECONNREFUSED''" 2 "[Acquire, ConnectSucceeds 0]"]
  have "(map_of (connecting ?w1) 1 = Some 1 \<longrightarrow> results ?w1 1 = None \<longrightarrow>
          results (pool_step ?w1 (ConnectFails 1 ''ECONNREFUSED'')) 1 =
            Some (Rejected (ConnectError ''ECONNREFUSED''))) \<and>
        (available (pool ?w) = [] \<and> card (inUse (pool ?w)) < 2 \<longrightarrow>
          inUse (pool ?w1) = insert 1 (inUse (pool ?w)) \<and>
          inUse (pool (pool_step ?w1 (ConnectFails 1 ''ECONNREFUSED''))) = inUse (pool ?w) \<and>
          failures (pool (pool_step ?w1 (ConnectFails 1 ''ECONNREFUSED''))) =
            failures (pool ?w) + 1)"
    unfolding Let_def s r r1 by blast
  with av iu f m1 rs1 show ?thesis
    unfolding r2 by simp
qed

section \<open>Properties of the monitor on a socket\<close>

lemma counters_le_refl: "counters_le c c"
  by (simp add: counters_le_def)

lemma counters_le_trans: "counters_le a b \<Longrightarrow> counters_le b c \<Longrightarrow> counters_le a c"
  by (auto simp add: counters_le_def)

lemma monitor_write_counts:
  "writeAttempts (stats (snd (snd (monitor_write bl m data ok s t0 t1 now)))) =
     writeAttempts (stats m) + 1"
  "totalBytesWritten (stats (snd (snd (monitor_write bl m data ok s t0 t1 now)))) =
     totalBytesWritten (stats m) + dataSize bl data"
  "backpressureEvents (stats (snd (snd (monitor_write bl m data ok s t0 t1 now)))) =
     backpressureEvents (stats m) + (if ok then 0 else 1)"
  by (simp_all add: monitor_write_def Let_def)

lemma monitor_write_le:
  "counters_le (stats m) (stats (snd (snd (monitor_write bl m data ok s t0 t1 now))))"
  by (simp add: monitor_write_def Let_def counters_le_def)

lemma on_drain_le: "counters_le (stats m) (stats (snd (on_drain m s now)))"
  by (simp add: on_drain_def counters_le_def)

lemma on_data_le: "counters_le (stats m) (stats (on_data m len))"
  by (simp add: on_data_def counters_le_def)

lemma on_error_le: "counters_le (stats m) (stats (on_error m))"
  by (simp add: on_error_def counters_le_def)

lemma funpow_counters_le:
  fixes f :: "monitor \<Rightarrow> monitor"
  assumes "\<And>m. counters_le (stats m) (stats (f m))"
  shows "counters_le (stats m) (stats ((f ^^ n) m))"
proof (induction n)
  case 0
  show ?case by (simp add: counters_le_refl)
next
  case (Suc n)
  from Suc assms [of "(f ^^ n) m"] show ?case
    by (auto intro: counters_le_trans)
qed

lemma stats_stopMonitoring: "stats (mon (stopMonitoring w)) = stats (mon w)"
  by (simp add: stopMonitoring_def Let_def)

lemma stats_funpow_stopMonitoring: "stats (mon ((stopMonitoring ^^ n) w)) = stats (mon w)"
  by (induction n) (simp_all add: stats_stopMonitoring)

lemma stats_startMonitoring: "stats (mon (startMonitoring w)) = stats (mon w)"
  by (simp add: startMonitoring_def Let_def)

lemma stats_recordBufferState: "stats (snd (recordBufferState m s now)) = stats m"
  by (simp add: recordBufferState_def Let_def)

lemma stats_getStats: "stats (snd (getStats m s now)) = stats m"
  by (simp add: getStats_def recordBufferState_def Let_def)

lemma mstep_le:
  assumes "mstep bl w e = Inr w'"
  shows "counters_le (stats (mon w)) (stats (mon w'))"
proof (cases e)
  case StartMonitoring
  with assms show ?thesis
    by (auto simp add: mstep_def stats_startMonitoring counters_le_refl)
next
  case StopMonitoring
  with assms show ?thesis
    by (auto simp add: mstep_def stats_stopMonitoring counters_le_refl)
next
  case (SocketWrite data ok s t0 t1 now)
  with assms monitor_write_le [of "mon w" bl data ok s t0 t1 now] show ?thesis
    by (auto simp add: mstep_def counters_le_refl split: write_fn.splits if_splits)
next
  case (SocketDrain s now)
  with assms funpow_counters_le [of "\<lambda>m. snd (on_drain m s now)" "mon w" "handler_sets w"]
  show ?thesis by (auto simp add: mstep_def on_drain_le)
next
  case (SocketData len)
  with assms funpow_counters_le [of "\<lambda>m. on_data m len" "mon w" "handler_sets w"]
  show ?thesis by (auto simp add: mstep_def on_data_le)
next
  case SocketError
  with assms funpow_counters_le [of on_error "mon w" "handler_sets w"]
  show ?thesis by (auto simp add: mstep_def on_error_le)
next
  case SocketClose
  with assms show ?thesis
    by (auto simp add: mstep_def stats_funpow_stopMonitoring counters_le_refl)
next
  case (IntervalFires t s now)
  with assms show ?thesis
    by (auto simp add: mstep_def stats_recordBufferState counters_le_refl split: if_splits)
next
  case (GetStats s now)
  with assms show ?thesis
    by (auto simp add: mstep_def stats_getStats counters_le_refl)
qed

lemma mrun_le:
  "mrun bl w es = Inr w' \<Longrightarrow> counters_le (stats (mon w)) (stats (mon w'))"
proof (induction es arbitrary: w)
  case Nil
  then show ?case by (simp add: counters_le_refl)
next
  case (Cons e es)
  then obtain w1 where s: "mstep bl w e = Inr w1" and r: "mrun bl w1 es = Inr w'"
    by (auto split: sum.splits)
  from mstep_le [OF s] Cons.IH [OF r] show ?case by (rule counters_le_trans)
qed

text \<open>
  The wrapper around the transport's own write. One run of it returns what the
  transport's write returned, adds exactly 1 to the write attempts and the byte length of
  the payload to the bytes written, and adds exactly 1 to the backpressure events when
  the transport returned false, nothing otherwise. The wrapper is what \<^verbatim>\<open>socket.write\<close>
  holds once \<^verbatim>\<open>startMonitoring\<close> has run on a socket that had its own write, and a
  write on the socket then runs it once. Through every series of events that ends without
  an error, no counter is lower afterwards than before.
\<close>

lemma wrapper_counts_once:
  "fst (monitor_write bl m data ok s t0 t1 now) = ok \<and>
   writeAttempts (stats (snd (snd (monitor_write bl m data ok s t0 t1 now)))) =
     writeAttempts (stats m) + 1 \<and>
   totalBytesWritten (stats (snd (snd (monitor_write bl m data ok s t0 t1 now)))) =
     totalBytesWritten (stats m) + dataSize bl data \<and>
   backpressureEvents (stats (snd (snd (monitor_write bl m data ok s t0 t1 now)))) =
     backpressureEvents (stats m) + (if ok then 0 else 1) \<and>
   (socket_write w0 = NativeWrite \<longrightarrow>
      socket_write (startMonitoring w0) = MonitorWrite \<and>
      originalWrite (mon (startMonitoring w0)) = Some NativeWrite) \<and>
   (socket_write w = MonitorWrite \<and> originalWrite (mon w) = Some NativeWrite \<longrightarrow>
      mstep bl w (SocketWrite data ok s t0 t1 now) =
        Inr (w\<lparr>mon := snd (snd (monitor_write bl (mon w) data ok s t0 t1 now))\<rparr>)) \<and>
   (mrun bl w es = Inr w' \<longrightarrow> counters_le (stats (mon w)) (stats (mon w')))"
proof -
  have a: "fst (monitor_write bl m data ok s t0 t1 now) = ok"
    by (simp add: monitor_write_def Let_def)
  have b: "socket_write w0 = NativeWrite \<Longrightarrow>
      socket_write (startMonitoring w0) = MonitorWrite \<and>
      originalWrite (mon (startMonitoring w0)) = Some NativeWrite"
    by (simp add: startMonitoring_def Let_def)
  have c: "socket_write w = MonitorWrite \<and> originalWrite (mon w) = Some NativeWrite \<Longrightarrow>
      mstep bl w (SocketWrite data ok s t0 t1 now) =
        Inr (w\<lparr>mon := snd (snd (monitor_write bl (mon w) data ok s t0 t1 now))\<rparr>)"
    by (simp add: mstep_def)
  from a b c mrun_le [of bl w es w'] show ?thesis
    by (simp add: monitor_write_counts)
qed

text \<open>
  A monitor started on a new socket; a buffer of three bytes is written and the transport
  answers false, with 20000 bytes buffered.
\<close>

lemma wrapper_counts_once_example:
  "socket_write new_mworld = NativeWrite \<and>
   socket_write (startMonitoring new_mworld) = MonitorWrite \<and>
   originalWrite (mon (startMonitoring new_mworld)) = Some NativeWrite \<and>
   mrun (\<lambda>str enc. length str) (startMonitoring new_mworld)
     [SocketWrite (BufferData [1, 2, 3]) False
        \<lparr> writableLength = 20000, writableHighWaterMark = 16384, destroyed = False,
          pending = False, readyState = ''open'', handle = Some False \<rparr> 0 1 1] =
     Inr ((startMonitoring new_mworld)
            \<lparr>mon := snd (snd (monitor_write (\<lambda>str enc. length str)
                (mon (startMonitoring new_mworld)) (BufferData [1, 2, 3]) False
                \<lparr> writableLength = 20000, writableHighWaterMark = 16384, destroyed = False,
                  pending = False, readyState = ''open'', handle = Some False \<rparr> 0 1 1))\<rparr>) \<and>
   counters_le (stats (mon (startMonitoring new_mworld)))
     (stats (snd (snd (monitor_write (\<lambda>str enc. length str)
        (mon (startMonitoring new_mworld)) (BufferData [1, 2, 3]) False
        \<lparr> writableLength = 20000, writableHighWaterMark = 16384, destroyed = False,
          pending = False, readyState = ''open'', handle = Some False \<rparr> 0 1 1)))) \<and>
   stats (snd (snd (monitor_write (\<lambda>str enc. length str)
        (mon (startMonitoring new_mworld)) (BufferData [1, 2, 3]) False
        \<lparr> writableLength = 20000, writableHighWaterMark = 16384, destroyed = False,
          pending = False, readyState = ''open'', handle = Some False \<rparr> 0 1 1))) =
     \<lparr> writeAttempts = 1, backpressureEvents = 1, maxBufferSize = 20000, drainEvents = 0,
       totalBytesWritten = 3, totalBytesRead = 0, writeFailures = 0, avgWriteTime = 1 \<rparr>"
proof -
  let ?bl = "\<lambda>(str::string) (enc::string). length str"
  let ?s = "\<lparr> writableLength = 20000, writableHighWaterMark = 16384, destroyed = False,
             pending = False, readyState = ''open'', handle = Some False \<rparr>"
  let ?w = "startMonitoring new_mworld"
  let ?e = "SocketWrite (BufferData [1, 2, 3]) False ?s 0 1 1"
  let ?w' = "?w\<lparr>mon := snd (snd (monitor_write ?bl (mon ?w) (BufferData [1, 2, 3]) False ?s 0 1 1))\<rparr>"
  have n: "socket_write new_mworld = NativeWrite"
    by (simp add: new_mworld_def)
  have st: "stats (snd (snd (monitor_write ?bl (mon ?w) (BufferData [1, 2, 3]) False ?s 0 1 1))) =
     \<lparr> writeAttempts = 1, backpressureEvents = 1, maxBufferSize = 20000, drainEvents = 0,
       totalBytesWritten = 3, totalBytesRead = 0, writeFailures = 0, avgWriteTime = 1 \<rparr>"
    by (simp add: monitor_write_def Let_def startMonitoring_def new_mworld_def new_monitor_def
          dataSize_def)
  from wrapper_counts_once
    [where ?w0.0 = new_mworld and w = ?w and bl = ?bl and data = "BufferData [1, 2, 3]"
       and ok = False and s = ?s and ?t0.0 = 0 and ?t1.0 = 1 and now = 1
       and es = "[?e]" and w' = ?w'] n
  have "socket_write ?w = MonitorWrite \<and> originalWrite (mon ?w) = Some NativeWrite \<and>
        mstep ?bl ?w ?e = Inr ?w' \<and>
        (mrun ?bl ?w [?e] = Inr ?w' \<longrightarrow> counters_le (stats (mon ?w)) (stats (mon ?w')))"
    by simp
  then show ?thesis using n st by simp
qed

text \<open>
  C8, evaluated on the code. \<^verbatim>\<open>startMonitoring\<close> has no guard against a second call,
  where \<^verbatim>\<open>stopMonitoring\<close> has one, and the wrapper reads \<^verbatim>\<open>this.originalWrite\<close> when it
  is called. After two calls of \<^verbatim>\<open>startMonitoring\<close> on a new socket, monitoring is active
  and both \<^verbatim>\<open>socket.write\<close> and \<^verbatim>\<open>originalWrite\<close> hold the wrapper. A write then makes
  the wrapper call itself, counting an attempt at every level, until the stack is
  exhausted: the write ends in a \<^verbatim>\<open>RangeError\<close> instead of returning with the attempts
  raised by exactly 1. After a single \<^verbatim>\<open>startMonitoring\<close> the same write returns what the
  transport returned and takes the attempts from 0 to 1.
\<close>

theorem second_startMonitoring_breaks_write_count:
  "isMonitoring (mon (startMonitoring (startMonitoring new_mworld))) \<and>
   socket_write (startMonitoring (startMonitoring new_mworld)) = MonitorWrite \<and>
   originalWrite (mon (startMonitoring (startMonitoring new_mworld))) = Some MonitorWrite \<and>
   mstep bl (startMonitoring (startMonitoring new_mworld))
     (SocketWrite data ok s t0 t1 now) = Inl RangeError \<and>
   mrun bl new_mworld [StartMonitoring, StartMonitoring, SocketWrite data ok s t0 t1 now] =
     Inl RangeError \<and>
   mstep bl (startMonitoring new_mworld) (SocketWrite data ok s t0 t1 now) =
     Inr ((startMonitoring new_mworld)
            \<lparr>mon := snd (snd (monitor_write bl (mon (startMonitoring new_mworld))
                                  data ok s t0 t1 now))\<rparr>) \<and>
   writeAttempts (stats (snd (snd (monitor_write bl (mon (startMonitoring new_mworld))
                                      data ok s t0 t1 now)))) = 1"
proof -
  let ?w1 = "startMonitoring new_mworld"
  let ?w2 = "startMonitoring ?w1"
  have s1: "socket_write ?w1 = MonitorWrite" "originalWrite (mon ?w1) = Some NativeWrite"
    by (simp_all add: startMonitoring_def new_mworld_def Let_def)
  have s2: "isMonitoring (mon ?w2)" "socket_write ?w2 = MonitorWrite"
    "originalWrite (mon ?w2) = Some MonitorWrite"
    by (simp_all add: startMonitoring_def new_mworld_def Let_def)
  have e2: "mstep bl ?w2 (SocketWrite data ok s t0 t1 now) = Inl RangeError"
    using s2 by (simp add: mstep_def)
  have r2: "mrun bl new_mworld [StartMonitoring, StartMonitoring, SocketWrite data ok s t0 t1 now] =
              Inl RangeError"
    using e2 by (simp add: mstep_def)
  have e1: "mstep bl ?w1 (SocketWrite data ok s t0 t1 now) =
              Inr (?w1\<lparr>mon := snd (snd (monitor_write bl (mon ?w1) data ok s t0 t1 now))\<rparr>)"
    using s1 by (simp add: mstep_def)
  have a1: "writeAttempts (stats (snd (snd (monitor_write bl (mon ?w1) data ok s t0 t1 now)))) = 1"
    by (simp add: monitor_write_counts startMonitoring_def new_mworld_def new_monitor_def Let_def)
  from s2 e2 r2 e1 a1 show ?thesis by simp
qed

text \<open>
  C9, evaluated on the code. A monitor is started on a new socket and stopped again.
  The sampler is stopped: both intervals are cleared, a late firing of the sampler
  records nothing, and \<^verbatim>\<open>socket.write\<close> is the transport's own again, so writes no longer
  count. The handlers registered on the socket are still there: a drain event after the
  stop takes the drain counter from 0 to 1, and ten bytes of data take the bytes read
  from 0 to 10.
\<close>

theorem stopMonitoring_leaves_socket_handlers:
  "(let w = stopMonitoring (startMonitoring new_mworld)
    in \<not> isMonitoring (mon w) \<and> intervals w = [] \<and> socket_write w = NativeWrite \<and>
       mstep bl w (IntervalFires t s now) = Inr w \<and>
       mstep bl w (SocketWrite data ok s t0 t1 now) = Inr w \<and>
       handler_sets w = 1 \<and>
       drainEvents (stats (mon w)) = 0 \<and>
       mstep bl w (SocketDrain s now) = Inr (w\<lparr>mon := snd (on_drain (mon w) s now)\<rparr>) \<and>
       drainEvents (stats (snd (on_drain (mon w) s now))) = 1 \<and>
       totalBytesRead (stats (mon w)) = 0 \<and>
       mstep bl w (SocketData 10) = Inr (w\<lparr>mon := on_data (mon w) 10\<rparr>) \<and>
       totalBytesRead (stats (on_data (mon w) 10)) = 10)"
  by (simp add: Let_def stopMonitoring_def startMonitoring_def new_mworld_def new_monitor_def
        mstep_def clearInterval_def on_drain_def on_data_def)

end
